theory Spec2Isabelle
  imports Main "HOL-Library.Word" "HOL-Library.Multiset"
begin

section \<open>Exceptions and output\<close>

text \<open>
  \<^verbatim>\<open>class DataException : public std::runtime_error\<close> inherits the constructors of
  \<^verbatim>\<open>std::runtime_error\<close>: it carries the message it was thrown with. The other
  exceptions that can reach the code come from the standard library:
  \<^verbatim>\<open>std::bad_alloc\<close>, thrown by \<^verbatim>\<open>::operator new\<close>; \<^verbatim>\<open>std::length_error\<close>, thrown by
  \<^verbatim>\<open>std::vector\<close> when it would have to grow beyond its \<^verbatim>\<open>max_size()\<close>; and
  \<^verbatim>\<open>std::system_error\<close>, thrown by the constructor of \<^verbatim>\<open>std::thread\<close> when the thread
  cannot be started.
\<close>

datatype error = DataException string | BadAlloc | LengthError | SystemError

text \<open>
  The message of the only \<^verbatim>\<open>throw\<close> of the source (line 61), as the UTF-8 bytes of the
  string literal (27 Cyrillic letters and blanks: "index beyond the bounds of the vector").
\<close>

definition index_message :: string where
  "index_message = map char_of
     [208, 152, 208, 189, 208, 180, 208, 181, 208, 186, 209, 129, 32, 208, 183, 208, 176, 32,
      208, 191, 209, 128, 208, 181, 208, 180, 208, 181, 208, 187, 208, 176, 208, 188, 208, 184,
      32, 208, 178, 208, 181, 208, 186, 209, 130, 208, 190, 209, 128, 208, 176 :: nat]"

text \<open>
  The lines written to \<^verbatim>\<open>std::cout\<close>, by what they say and the number they carry (the
  wording is Russian in the source): the allocator's two lines and the driver's two.
  \<open>FirstPrefix\<close> is the driver's second line cut before its number, when \<^verbatim>\<open>get(0)\<close> throws
  after the label was written (the operands of \<^verbatim>\<open><<\<close> are evaluated from left to right
  since C++17).
\<close>

datatype line = AllocLine nat | FreeLine nat | TotalLine nat | FirstLine int | FirstPrefix

text \<open>The lines written to \<^verbatim>\<open>std::cerr\<close> by the two handlers of \<^verbatim>\<open>main\<close>.\<close>

datatype errline = DataErrLine string | GeneralErrLine string

section \<open>The environment\<close>

text \<open>
  What the program acts on outside its own objects: the two streams and the raw heap behind
  \<^verbatim>\<open>::operator new\<close> and \<^verbatim>\<open>::operator delete\<close>. The heap is any type \<open>'h\<close>.
\<close>

type_synonym ptr = nat

record 'h world =
  cout :: "line list"
  cerr :: "errline list"
  heap :: 'h

text \<open>
  What the source leaves to the platform. \<open>operator_new\<close> returns \<open>None\<close> where
  \<^verbatim>\<open>::operator new\<close> throws \<^verbatim>\<open>std::bad_alloc\<close>; \<open>'w\<close> is the width of \<^verbatim>\<open>size_t\<close>;
  \<open>sizeof_T\<close> is \<^verbatim>\<open>sizeof(T)\<close>; \<open>vector_max_size\<close> and \<open>vector_growth\<close> are
  \<^verbatim>\<open>std::vector\<close>'s \<^verbatim>\<open>max_size()\<close> and the capacity it asks for when a full vector of the
  given size grows (the standard fixes neither). \<open>thread_limit\<close> is the number of calls
  of \<^verbatim>\<open>threads.emplace_back\<close> (line 93) that succeed before one throws, and
  \<open>spawn_failure\<close> is why that one throws: the thread cannot be started
  (\<^verbatim>\<open>std::system_error\<close>), or \<^verbatim>\<open>::operator new\<close> has no memory for the buffer of
  \<^verbatim>\<open>threads\<close> or for the state of the thread (\<^verbatim>\<open>std::bad_alloc\<close>); these requests of the
  driver are not taken from the heap \<open>'h\<close>. \<open>library_what\<close> is the text \<^verbatim>\<open>what()\<close> returns
  for the library's exceptions, which the implementation chooses.
\<close>

datatype spawn_failure = CannotStart | OutOfMemory


record (overloaded) ('h, 'w) platform =
  operator_new :: "'w word \<Rightarrow> 'h \<Rightarrow> (ptr \<times> 'h) option"
  operator_delete :: "ptr \<Rightarrow> 'h \<Rightarrow> 'h"
  sizeof_T :: "'w word"
  vector_max_size :: nat
  vector_growth :: "nat \<Rightarrow> nat"
  thread_limit :: nat
  spawn_failure :: spawn_failure
  library_what :: "error \<Rightarrow> string"


section \<open>LoggingAllocator\<close>

text \<open>
  \<^verbatim>\<open>T* allocate(size_t n)\<close> (lines 24 to 28): the line goes to \<^verbatim>\<open>std::cout\<close> first, then
  \<^verbatim>\<open>::operator new(n * sizeof(T))\<close> runs; the product is a product of \<^verbatim>\<open>size_t\<close> values
  and wraps. The result is the pointer or the exception, with the environment as the call
  left it.
\<close>

definition allocate ::
  "('h, 'w::len) platform \<Rightarrow> 'w word \<Rightarrow> 'h world \<Rightarrow> (error + ptr) \<times> 'h world" where
  "allocate P n w =
     (let w1 = w\<lparr>cout := cout w @ [AllocLine (unat n)]\<rparr> in
      case operator_new P (n * sizeof_T P) (heap w1) of
        None \<Rightarrow> (Inl BadAlloc, w1)
      | Some (p, h) \<Rightarrow> (Inr p, w1\<lparr>heap := h\<rparr>))"

text \<open>\<^verbatim>\<open>void deallocate(T* p, size_t n)\<close> (lines 30 to 34).\<close>

definition deallocate ::
  "('h, 'w::len) platform \<Rightarrow> ptr \<Rightarrow> 'w word \<Rightarrow> 'h world \<Rightarrow> 'h world" where
  "deallocate P p n w =
     (let w1 = w\<lparr>cout := cout w @ [FreeLine (unat n)]\<rparr> in
      w1\<lparr>heap := operator_delete P p (heap w1)\<rparr>)"

section \<open>std::vector over an allocator\<close>

text \<open>
  \<^verbatim>\<open>std::vector<T, Allocator> data\<close> (line 42) is the standard library's. What the source
  uses of it: a vector owns at most one buffer, got from the allocator's \<open>allocate\<close> with
  the capacity as its count and given back by \<open>deallocate\<close> with the same count;
  \<^verbatim>\<open>push_back\<close> on a full vector throws \<^verbatim>\<open>std::length_error\<close> at \<^verbatim>\<open>max_size()\<close>, and
  otherwise asks for a larger buffer first, changes nothing when that throws, moves the
  elements and gives the old buffer back; the destructor gives the buffer back. A vector
  without a buffer gives nothing back. Sizes and indices are natural numbers here: they
  are only compared and counted, and wrap nowhere but in the allocator's product.
\<close>

record 'a vector =
  storage :: "(ptr \<times> nat) option"
  elems :: "'a list"

definition empty_vector :: "'a vector" where
  "empty_vector = \<lparr>storage = None, elems = []\<rparr>"

definition capacity :: "'a vector \<Rightarrow> nat" where
  "capacity v = (case storage v of None \<Rightarrow> 0 | Some (p, c) \<Rightarrow> c)"

definition release_storage ::
  "('h, 'w::len) platform \<Rightarrow> 'a vector \<Rightarrow> 'h world \<Rightarrow> 'h world" where
  "release_storage P v w =
     (case storage v of None \<Rightarrow> w | Some (p, c) \<Rightarrow> deallocate P p (of_nat c) w)"

definition push_back ::
  "('h, 'w::len) platform \<Rightarrow> 'a \<Rightarrow> 'a vector \<Rightarrow> 'h world
     \<Rightarrow> (error + unit) \<times> 'a vector \<times> 'h world" where
  "push_back P x v w =
     (if length (elems v) < capacity v then (Inr (), v\<lparr>elems := elems v @ [x]\<rparr>, w)
      else if vector_max_size P \<le> length (elems v) then (Inl LengthError, v, w)
      else
        let n = vector_growth P (length (elems v)) in
        case allocate P (of_nat n) w of
          (Inl e, w1) \<Rightarrow> (Inl e, v, w1)
        | (Inr p, w1) \<Rightarrow>
            (Inr (), \<lparr>storage = Some (p, n), elems = elems v @ [x]\<rparr>, release_storage P v w1))"

section \<open>ThreadSafeVector\<close>

record 'a ThreadSafeVector =
  data :: "'a vector"
  mtx :: bool

text \<open>A default-constructed object (line 77): no elements, no buffer, the mutex free.\<close>

definition construct :: "'a ThreadSafeVector" where
  "construct = \<lparr>data = empty_vector, mtx = False\<rparr>"

text \<open>
  \<^verbatim>\<open>std::lock_guard<std::mutex> lock(mtx)\<close>: the constructor takes the mutex, and waits
  while another holder has it (\<open>None\<close>: the caller does not get past this line in this
  state); the destructor releases it when the scope is left, by \<^verbatim>\<open>return\<close> or by
  \<^verbatim>\<open>throw\<close>.
\<close>

definition lock :: "'a ThreadSafeVector \<Rightarrow> 'a ThreadSafeVector option" where
  "lock s = (if mtx s then None else Some (s\<lparr>mtx := True\<rparr>))"

definition unlock :: "'a ThreadSafeVector \<Rightarrow> 'a ThreadSafeVector" where
  "unlock s = s\<lparr>mtx := False\<rparr>"

text \<open>The statements of the three methods between the two ends of the guard's scope.\<close>

definition add_body ::
  "('h, 'w::len) platform \<Rightarrow> 'a \<Rightarrow> 'a ThreadSafeVector \<Rightarrow> 'h world
     \<Rightarrow> (error + unit) \<times> 'a ThreadSafeVector \<times> 'h world" where
  "add_body P x s w =
     (case push_back P x (data s) w of (r, v, w') \<Rightarrow> (r, s\<lparr>data := v\<rparr>, w'))"

definition get_body :: "nat \<Rightarrow> 'a ThreadSafeVector \<Rightarrow> error + 'a" where
  "get_body index s =
     (if index \<ge> length (elems (data s)) then Inl (DataException index_message)
      else Inr (elems (data s) ! index))"

definition size_body :: "'a ThreadSafeVector \<Rightarrow> nat" where
  "size_body s = length (elems (data s))"

text \<open>
  The three public methods (lines 48 to 70), called by one caller: guard, body, release.
  \<^verbatim>\<open>get\<close> and \<^verbatim>\<open>size\<close> are \<^verbatim>\<open>const\<close>; they change the \<^verbatim>\<open>mutable\<close> mutex only, and
  the object comes back with the result.
\<close>

definition add ::
  "('h, 'w::len) platform \<Rightarrow> 'a \<Rightarrow> 'a ThreadSafeVector \<Rightarrow> 'h world
     \<Rightarrow> ((error + unit) \<times> 'a ThreadSafeVector \<times> 'h world) option" where
  "add P x s w =
     (case lock s of
        None \<Rightarrow> None
      | Some s1 \<Rightarrow> (case add_body P x s1 w of (r, s2, w') \<Rightarrow> Some (r, unlock s2, w')))"

definition get :: "nat \<Rightarrow> 'a ThreadSafeVector \<Rightarrow> ((error + 'a) \<times> 'a ThreadSafeVector) option" where
  "get index s =
     (case lock s of None \<Rightarrow> None | Some s1 \<Rightarrow> Some (get_body index s1, unlock s1))"

definition size_tsv :: "'a ThreadSafeVector \<Rightarrow> (nat \<times> 'a ThreadSafeVector) option" where
  "size_tsv s = (case lock s of None \<Rightarrow> None | Some s1 \<Rightarrow> Some (size_body s1, unlock s1))"

text \<open>
  The implicit destructor: the vector's elements are destroyed and its buffer goes back
  through the allocator.
\<close>

definition destroy ::
  "('h, 'w::len) platform \<Rightarrow> 'a ThreadSafeVector \<Rightarrow> 'h world \<Rightarrow> 'h world" where
  "destroy P s w = release_storage P (data s) w"

section \<open>Tasks sharing one sequence\<close>

text \<open>
  A call of one of the three public methods, and what it returns. \<open>body\<close> is the part of
  the call inside the guard's scope.
\<close>

datatype 'a call = Add 'a | Get nat | Size

datatype 'a reply = Done | Element 'a | Length nat

fun body ::
  "('h, 'w::len) platform \<Rightarrow> 'a call \<Rightarrow> 'a ThreadSafeVector \<Rightarrow> 'h world
     \<Rightarrow> (error + 'a reply) \<times> 'a ThreadSafeVector \<times> 'h world" where
  "body P (Add x) s w =
     (case add_body P x s w of
        (Inl e, s', w') \<Rightarrow> (Inl e, s', w')
      | (Inr u, s', w') \<Rightarrow> (Inr Done, s', w'))"
| "body P (Get i) s w =
     (case get_body i s of Inl e \<Rightarrow> (Inl e, s, w) | Inr x \<Rightarrow> (Inr (Element x), s, w))"
| "body P Size s w = (Inr (Length (size_body s)), s, w)"

text \<open>
  A call made by one caller from its first step to its last: guard, body, release. For
  the three kinds of call it is \<open>add\<close>, \<open>get\<close> and \<open>size_tsv\<close>.
\<close>

definition call ::
  "('h, 'w::len) platform \<Rightarrow> 'a call \<Rightarrow> 'a ThreadSafeVector \<Rightarrow> 'h world
     \<Rightarrow> ((error + 'a reply) \<times> 'a ThreadSafeVector \<times> 'h world) option" where
  "call P c s w =
     (case lock s of
        None \<Rightarrow> None
      | Some s1 \<Rightarrow> (case body P c s1 w of (r, s2, w') \<Rightarrow> Some (r, unlock s2, w')))"

text \<open>
  A task is a thread that makes the calls of \<open>todo\<close> one after the other. Where it stands:
  outside any call, inside a guard's scope with the body still to run, or at the end of
  the scope with the guard's destructor still to run. \<open>replies\<close> keeps each finished body
  with its result.
\<close>

datatype pc = Outside | Inside | Leaving

record 'a task =
  todo :: "'a call list"
  pc :: pc
  replies :: "('a call \<times> (error + 'a reply)) list"

record ('a, 'h) system =
  shared :: "'a ThreadSafeVector"
  env :: "'h world"
  tasks :: "'a task list"

text \<open>
  One step of task \<open>t\<close>: the guard's constructor (the task stays where it is while the
  mutex is held), the body, or the guard's destructor. A task with nothing left to do, and
  a number that names no task, leave the system as it is.
\<close>

definition step ::
  "('h, 'w::len) platform \<Rightarrow> nat \<Rightarrow> ('a, 'h) system \<Rightarrow> ('a, 'h) system" where
  "step P t sys =
     (if length (tasks sys) \<le> t then sys
      else
        let T = tasks sys ! t in
        case pc T of
          Outside \<Rightarrow>
            (case todo T of
               [] \<Rightarrow> sys
             | c # cs \<Rightarrow>
                 (case lock (shared sys) of
                    None \<Rightarrow> sys
                  | Some s1 \<Rightarrow> sys\<lparr>shared := s1, tasks := (tasks sys)[t := T\<lparr>pc := Inside\<rparr>]\<rparr>))
        | Inside \<Rightarrow>
            (case todo T of
               [] \<Rightarrow> sys
             | c # cs \<Rightarrow>
                 (case body P c (shared sys) (env sys) of
                    (r, s', w') \<Rightarrow>
                      sys\<lparr>shared := s', env := w',
                          tasks := (tasks sys)
                            [t := \<lparr>todo = cs, pc = Leaving, replies = replies T @ [(c, r)]\<rparr>]\<rparr>))
        | Leaving \<Rightarrow>
            sys\<lparr>shared := unlock (shared sys), tasks := (tasks sys)[t := T\<lparr>pc := Outside\<rparr>]\<rparr>)"

text \<open>A run: the tasks take their steps in the order of the schedule.\<close>

fun exec ::
  "('h, 'w::len) platform \<Rightarrow> nat list \<Rightarrow> ('a, 'h) system \<Rightarrow> ('a, 'h) system" where
  "exec P [] sys = sys"
| "exec P (t # ts) sys = exec P ts (step P t sys)"

definition start :: "'a call list list \<Rightarrow> 'h world \<Rightarrow> ('a, 'h) system" where
  "start progs w =
     \<lparr>shared = construct, env = w,
      tasks = map (\<lambda>cs. \<lparr>todo = cs, pc = Outside, replies = []\<rparr>) progs\<rparr>"

definition finished :: "('a, 'h) system \<Rightarrow> bool" where
  "finished sys = list_all (\<lambda>T. todo T = [] \<and> pc T = Outside) (tasks sys)"

text \<open>
  A schedule under which every task completes: task after task, each call of a task
  taking its three steps in a row.
\<close>

definition run_to_end :: "nat \<Rightarrow> 'a call list \<Rightarrow> nat list" where
  "run_to_end t cs = concat (map (\<lambda>c. [t, t, t]) cs)"


text \<open>The values a task has appended: the arguments of its \<open>Add\<close> calls that returned.\<close>

definition appended1 :: "'a call \<times> (error + 'a reply) \<Rightarrow> 'a list" where
  "appended1 cr = (case cr of (Add x, Inr r) \<Rightarrow> [x] | _ \<Rightarrow> [])"

definition appended :: "'a task \<Rightarrow> 'a list" where
  "appended T = concat (map appended1 (replies T))"

text \<open>
  Counted over the tasks of a system: how many are inside a guard's scope, the values
  they have appended, and how many these are.
\<close>

definition holders :: "('a, 'h) system \<Rightarrow> nat" where
  "holders sys = sum_list (map (\<lambda>T. if pc T = Outside then 0 else 1) (tasks sys))"

definition all_appended :: "('a, 'h) system \<Rightarrow> 'a multiset" where
  "all_appended sys = sum_list (map (\<lambda>T. mset (appended T)) (tasks sys))"

definition appended_count :: "('a, 'h) system \<Rightarrow> nat" where
  "appended_count sys = sum_list (map (\<lambda>T. length (appended T)) (tasks sys))"


text \<open>The exceptions a task's calls ended with.\<close>

definition raised1 :: "'a call \<times> (error + 'a reply) \<Rightarrow> error list" where
  "raised1 cr = (case cr of (c, Inl e) \<Rightarrow> [e] | _ \<Rightarrow> [])"

definition raised :: "'a task \<Rightarrow> error list" where
  "raised T = concat (map raised1 (replies T))"

text \<open>
  Reading the whole sequence as a caller does: \<open>size\<close>, then \<open>get\<close> at every index below
  it, in order.
\<close>

fun get_each ::
  "nat list \<Rightarrow> 'a ThreadSafeVector \<Rightarrow> ((error + 'a) list \<times> 'a ThreadSafeVector) option" where
  "get_each [] s = Some ([], s)"
| "get_each (i # js) s =
     (case get i s of
        None \<Rightarrow> None
      | Some (r, s1) \<Rightarrow>
          (case get_each js s1 of None \<Rightarrow> None | Some (rs, s2) \<Rightarrow> Some (r # rs, s2)))"

definition read_all ::
  "'a ThreadSafeVector \<Rightarrow> ((error + 'a) list \<times> 'a ThreadSafeVector) option" where
  "read_all s = (case size_tsv s of None \<Rightarrow> None | Some (n, s1) \<Rightarrow> get_each [0..<n] s1)"

text \<open>The counts named by the allocator's lines in a piece of output.\<close>

definition acquired :: "line list \<Rightarrow> nat list" where
  "acquired ls = concat (map (\<lambda>l. case l of AllocLine n \<Rightarrow> [n] | _ \<Rightarrow> []) ls)"

definition released :: "line list \<Rightarrow> nat list" where
  "released ls = concat (map (\<lambda>l. case l of FreeLine n \<Rightarrow> [n] | _ \<Rightarrow> []) ls)"

section \<open>The driver\<close>

text \<open>
  The worker of lines 80 to 87: three appends, \<^verbatim>\<open>id * 100 + i\<close> for \<open>i\<close> from 0 to 2 (the
  pause between them is not modelled).
\<close>

definition worker :: "int \<Rightarrow> int call list" where
  "worker wid = map (\<lambda>i. Add (wid * 100 + i)) [0, 1, 2]"






section \<open>Invariants of a run\<close>

text \<open>
  The mutex is held exactly while one task is inside a guard's scope; the elements of the
  sequence are, as a multiset, the values the tasks have appended; a task's finished calls
  followed by its remaining ones are its program.
\<close>

definition mutex_inv :: "('a, 'h) system \<Rightarrow> bool" where
  "mutex_inv sys \<longleftrightarrow> holders sys = (if mtx (shared sys) then 1 else 0)"

definition elems_inv :: "('a, 'h) system \<Rightarrow> bool" where
  "elems_inv sys \<longleftrightarrow> mset (elems (data (shared sys))) = all_appended sys"

definition script :: "'a task \<Rightarrow> 'a call list" where
  "script T = map fst (replies T) @ todo T"

text \<open>A task inside a guard's scope has the call it is making still in \<open>todo\<close>.\<close>

definition inside_inv :: "('a, 'h) system \<Rightarrow> bool" where
  "inside_inv sys \<longleftrightarrow> list_all (\<lambda>T. pc T = Inside \<longrightarrow> todo T \<noteq> []) (tasks sys)"

text \<open>
  The allocator's lines written since the output was \<open>ls0\<close>: every count acquired has been
  released or is the count of the buffer the vector holds (\<open>owed\<close>: what the destructor
  will name), but for one acquire line for each \<open>add\<close> that ended with \<open>BadAlloc\<close>.
\<close>

definition owed :: "('h, 'w::len) platform \<Rightarrow> 'a vector \<Rightarrow> nat list" where
  "owed P v = (case storage v of None \<Rightarrow> [] | Some (p, c) \<Rightarrow> [unat (of_nat c :: 'w word)])"

definition failures :: "('a, 'h) system \<Rightarrow> nat" where
  "failures sys = sum_list (map (\<lambda>T. count_list (raised T) BadAlloc) (tasks sys))"

definition log_inv :: "('h, 'w::len) platform \<Rightarrow> line list \<Rightarrow> ('a, 'h) system \<Rightarrow> bool" where
  "log_inv P ls0 sys \<longleftrightarrow>
     (\<exists>ls. cout (env sys) = ls0 @ ls
        \<and> length (acquired ls)
            = length (released ls) + length (owed P (data (shared sys))) + failures sys
        \<and> (failures sys = 0 \<longrightarrow>
              mset (acquired ls) = mset (released ls) + mset (owed P (data (shared sys)))))"

section \<open>A platform for concrete runs\<close>

text \<open>
  A raw heap with a byte budget: a request larger than what is left fails, a block given
  back returns its bytes. With \<^verbatim>\<open>sizeof(int) = 4\<close>, a 64-bit \<^verbatim>\<open>size_t\<close>, the doubling
  growth of the GNU library's \<^verbatim>\<open>std::vector\<close> and that library's texts for \<^verbatim>\<open>what()\<close>, it
  is the platform the concrete runs below are evaluated on.
\<close>

record pool =
  free_bytes :: nat
  brk :: ptr
  blocks :: "(ptr \<times> nat) list"

definition pool_new :: "64 word \<Rightarrow> pool \<Rightarrow> (ptr \<times> pool) option" where
  "pool_new b h =
     (if unat b \<le> free_bytes h
      then Some (brk h, \<lparr>free_bytes = free_bytes h - unat b, brk = Suc (brk h),
                         blocks = (brk h, unat b) # blocks h\<rparr>)
      else None)"

definition pool_delete :: "ptr \<Rightarrow> pool \<Rightarrow> pool" where
  "pool_delete p h =
     (case map_of (blocks h) p of
        None \<Rightarrow> h
      | Some b \<Rightarrow> h\<lparr>free_bytes := free_bytes h + b,
                     blocks := filter (\<lambda>q. fst q \<noteq> p) (blocks h)\<rparr>)"

fun gnu_what :: "error \<Rightarrow> string" where
  "gnu_what (DataException msg) = msg"
| "gnu_what BadAlloc = ''std::bad_alloc''"
| "gnu_what LengthError = ''vector::_M_realloc_insert''"
| "gnu_what SystemError = ''Resource temporarily unavailable''"

definition gnu_lp64 :: "(pool, 64) platform" where
  "gnu_lp64 =
     \<lparr>operator_new = pool_new, operator_delete = pool_delete, sizeof_T = 4,
      vector_max_size = (2 ^ 63 - 1) div 4,
      vector_growth = (\<lambda>n. min (n + max n 1) ((2 ^ 63 - 1) div 4)),
      thread_limit = 1024, spawn_failure = CannotStart, library_what = gnu_what\<rparr>"

text \<open>The environment at the start of a run: nothing written, \<open>b\<close> bytes to give.\<close>

definition boot :: "nat \<Rightarrow> pool world" where
  "boot b = \<lparr>cout = [], cerr = [], heap = \<lparr>free_bytes = b, brk = 1, blocks = []\<rparr>\<rparr>"

text \<open>The sequence of scenario S1: 10, 20, 30 in a buffer of four.\<close>

definition s1_vector :: "int ThreadSafeVector" where
  "s1_vector = \<lparr>data = \<lparr>storage = Some (3, 4), elems = [10, 20, 30]\<rparr>, mtx = False\<rparr>"

text \<open>
  Scenario S2: the driver's five workers, each call running to its end before the next
  task's, with four attempts to enter while the mutex is held in every round.
\<close>

definition s2_schedule :: "nat list" where
  "s2_schedule = concat (replicate 3 [0, 1, 0, 2, 0, 1, 3, 1, 1, 2, 4, 2, 2, 3, 3, 3, 4, 4, 4])"

definition s2_run :: "(int, pool) system" where
  "s2_run = exec gnu_lp64 s2_schedule (start (map worker [1, 2, 3, 4, 5]) (boot 1000))"

text \<open>One task, one append, and a heap of three bytes: the allocation fails.\<close>

definition failed_run :: "(int, pool) system" where
  "failed_run = exec gnu_lp64 [0, 0, 0] (start [[Add 7]] (boot 3))"

text \<open>
  Two tasks, stopped after three steps: the first has run its body and still holds the
  mutex, the second has tried to enter.
\<close>

definition held_run :: "(int, pool) system" where
  "held_run = exec gnu_lp64 [0, 1, 0] (start [[Add 1], [Get 5]] (boot 100))"



section \<open>Basic facts\<close>

lemma unlock_lock: "\<not> mtx s \<Longrightarrow> unlock (s\<lparr>mtx := True, data := v\<rparr>) = s\<lparr>data := v\<rparr>"
  by (cases s) (simp add: unlock_def)

lemma add_free:
  "\<not> mtx s \<Longrightarrow>
   add P x s w = (case push_back P x (data s) w of (r, v, w') \<Rightarrow> Some (r, s\<lparr>data := v\<rparr>, w'))"
  by (simp add: add_def lock_def add_body_def unlock_lock split: prod.splits)

lemma add_blocked: "mtx s \<Longrightarrow> add P x s w = None"
  by (simp add: add_def lock_def)

lemma get_free: "\<not> mtx s \<Longrightarrow> get index s = Some (get_body index s, s)"
  by (cases s) (simp add: get_def lock_def unlock_def get_body_def)

lemma size_free: "\<not> mtx s \<Longrightarrow> size_tsv s = Some (size_body s, s)"
  by (cases s) (simp add: size_tsv_def lock_def unlock_def size_body_def)

lemma push_back_Inr:
  "push_back P x v w = (Inr u, v', w') \<Longrightarrow> elems v' = elems v @ [x]"
  by (auto simp add: push_back_def Let_def split: if_splits prod.splits sum.splits)

lemma push_back_Inl:
  "push_back P x v w = (Inl e, v', w') \<Longrightarrow> v' = v"
  by (auto simp add: push_back_def Let_def split: if_splits prod.splits sum.splits)

lemma allocate_cout: "cout (snd (allocate P n w)) = cout w @ [AllocLine (unat n)]"
  by (simp add: allocate_def Let_def split: option.splits prod.splits)

lemma allocate_Inl:
  "allocate P n w = (Inl e, w1) \<Longrightarrow>
   e = BadAlloc \<and> operator_new P (n * sizeof_T P) (heap w) = None
     \<and> w1 = w\<lparr>cout := cout w @ [AllocLine (unat n)]\<rparr>"
  by (auto simp add: allocate_def Let_def split: option.splits prod.splits)


lemma index_message_nonempty: "index_message \<noteq> []"
  by (simp add: index_message_def)

lemma unat_half_range: "unat (2 ^ (LENGTH('w) - 1) :: 'w::len word) = 2 ^ (LENGTH('w) - 1)"
proof -
  have "(2 ^ (LENGTH('w) - 1) :: 'w word) = of_nat (2 ^ (LENGTH('w) - 1))"
    by simp
  then have "unat (2 ^ (LENGTH('w) - 1) :: 'w word) = 2 ^ (LENGTH('w) - 1) mod 2 ^ LENGTH('w)"
    by (simp only: unat_of_nat)
  moreover have "(2::nat) ^ (LENGTH('w) - 1) < 2 ^ LENGTH('w)"
    by simp
  ultimately show ?thesis
    by simp
qed

section \<open>Lists\<close>

lemma sum_list_map_update:
  fixes f :: "'b \<Rightarrow> 'c::comm_monoid_add"
  shows "t < length xs \<Longrightarrow>
    sum_list (map f (xs[t := y])) + f (xs ! t) = sum_list (map f xs) + f y"
  by (induction xs arbitrary: t) (auto simp add: ac_simps split: nat.splits)

lemma map_update_same:
  "t < length xs \<Longrightarrow> f y = f (xs ! t) \<Longrightarrow> map f (xs[t := y]) = map f xs"
  by (induction xs arbitrary: t) (auto split: nat.splits)

lemma nth_pair_le_sum_list:
  fixes ys :: "nat list"
  shows "t < length ys \<Longrightarrow> u < length ys \<Longrightarrow> t \<noteq> u \<Longrightarrow> ys ! t + ys ! u \<le> sum_list ys"
proof (induction ys arbitrary: t u)
  case Nil
  then show ?case by simp
next
  case (Cons a ys)
  show ?case
  proof (cases t)
    case 0
    then obtain u' where u: "u = Suc u'"
      using Cons.prems by (cases u) auto
    then have "ys ! u' \<le> sum_list ys"
      using Cons.prems by (simp add: member_le_sum_list)
    then show ?thesis
      using 0 u by simp
  next
    case (Suc t')
    show ?thesis
    proof (cases u)
      case 0
      have "ys ! t' \<le> sum_list ys"
        using Cons.prems Suc by (simp add: member_le_sum_list)
      then show ?thesis
        using 0 Suc by simp
    next
      case (Suc u')
      then have "ys ! t' + ys ! u' \<le> sum_list ys"
        using Cons.prems \<open>t = Suc t'\<close> by (intro Cons.IH) simp_all
      then show ?thesis
        using Suc \<open>t = Suc t'\<close> by simp
    qed
  qed
qed

lemma list_all_update:
  "list_all Q xs \<Longrightarrow> Q y \<Longrightarrow> list_all Q (xs[t := y])"
  by (induction xs arbitrary: t) (auto split: nat.splits)

lemma count_list_append: "count_list (xs @ ys) a = count_list xs a + count_list ys a"
  by (induction xs) simp_all

section \<open>Steps of a task\<close>

lemma add_body_mtx: "add_body P x s w = (r, s', w') \<Longrightarrow> mtx s' = mtx s"
  by (auto simp add: add_body_def split: prod.splits)

lemma add_body_Inr:
  "add_body P x s w = (Inr u, s', w') \<Longrightarrow> elems (data s') = elems (data s) @ [x]"
  by (auto simp add: add_body_def split: prod.splits dest: push_back_Inr)

lemma add_body_Inl:
  "add_body P x s w = (Inl e, s', w') \<Longrightarrow> s' = s"
  by (auto simp add: add_body_def split: prod.splits dest: push_back_Inl)

lemma body_mtx: "body P c s w = (r, s', w') \<Longrightarrow> mtx s' = mtx s"
  by (cases c) (auto split: prod.splits sum.splits dest: add_body_mtx)

lemma body_elems:
  "body P c s w = (r, s', w') \<Longrightarrow> elems (data s') = elems (data s) @ appended1 (c, r)"
  by (cases c)
    (auto simp add: appended1_def split: prod.splits sum.splits
      dest: add_body_Inr add_body_Inl)

lemma step_cases [consumes 0, case_names stutter enter run leave]:
  fixes sys :: "('a, 'h) system"
  obtains "step P t sys = sys"
  | T c cs where "t < length (tasks sys)" "tasks sys ! t = T" "pc T = Outside"
      "todo T = c # cs" "\<not> mtx (shared sys)"
      "step P t sys
         = sys\<lparr>shared := (shared sys)\<lparr>mtx := True\<rparr>, tasks := (tasks sys)[t := T\<lparr>pc := Inside\<rparr>]\<rparr>"
  | T c cs r s' w' where "t < length (tasks sys)" "tasks sys ! t = T" "pc T = Inside"
      "todo T = c # cs" "body P c (shared sys) (env sys) = (r, s', w')"
      "step P t sys
         = sys\<lparr>shared := s', env := w',
               tasks := (tasks sys)
                 [t := \<lparr>todo = cs, pc = Leaving, replies = replies T @ [(c, r)]\<rparr>]\<rparr>"
  | T where "t < length (tasks sys)" "tasks sys ! t = T" "pc T = Leaving"
      "step P t sys
         = sys\<lparr>shared := unlock (shared sys), tasks := (tasks sys)[t := T\<lparr>pc := Outside\<rparr>]\<rparr>"
proof (cases "length (tasks sys) \<le> t")
  case True
  then have "step P t sys = sys"
    by (simp add: step_def)
  then show ?thesis
    by (rule that(1))
next
  case False
  then have t: "t < length (tasks sys)"
    by simp
  show ?thesis
  proof (cases "pc (tasks sys ! t)")
    case Outside
    show ?thesis
    proof (cases "todo (tasks sys ! t)")
      case Nil
      then have "step P t sys = sys"
        using t Outside by (simp add: step_def)
      then show ?thesis
        by (rule that(1))
    next
      case (Cons c cs)
      show ?thesis
      proof (cases "mtx (shared sys)")
        case True
        then have "step P t sys = sys"
          using t Outside Cons by (simp add: step_def lock_def)
        then show ?thesis
          by (rule that(1))
      next
        case False
        then have "step P t sys
          = sys\<lparr>shared := (shared sys)\<lparr>mtx := True\<rparr>,
                tasks := (tasks sys)[t := (tasks sys ! t)\<lparr>pc := Inside\<rparr>]\<rparr>"
          using t Outside Cons by (simp add: step_def lock_def)
        then show ?thesis
          using t Outside Cons False by (intro that(2) [of "tasks sys ! t" c cs]) simp_all
      qed
    qed
  next
    case Inside
    show ?thesis
    proof (cases "todo (tasks sys ! t)")
      case Nil
      then have "step P t sys = sys"
        using t Inside by (simp add: step_def)
      then show ?thesis
        by (rule that(1))
    next
      case (Cons c cs)
      obtain r s' w' where b: "body P c (shared sys) (env sys) = (r, s', w')"
        by (cases "body P c (shared sys) (env sys)") auto
      then have "step P t sys
         = sys\<lparr>shared := s', env := w',
               tasks := (tasks sys)
                 [t := \<lparr>todo = cs, pc = Leaving, replies = replies (tasks sys ! t) @ [(c, r)]\<rparr>]\<rparr>"
        using t Inside Cons by (simp add: step_def)
      then show ?thesis
        using t Inside Cons b by (intro that(3) [of "tasks sys ! t" c cs r s' w']) simp_all
    qed
  next
    case Leaving
    then have "step P t sys
      = sys\<lparr>shared := unlock (shared sys),
            tasks := (tasks sys)[t := (tasks sys ! t)\<lparr>pc := Outside\<rparr>]\<rparr>"
      using t by (simp add: step_def)
    then show ?thesis
      using t Leaving by (intro that(4) [of "tasks sys ! t"]) simp_all
  qed
qed

lemma step_length: "length (tasks (step P t sys)) = length (tasks sys)"
  by (cases P t sys rule: step_cases) simp_all

lemma exec_length: "length (tasks (exec P sched sys)) = length (tasks sys)"
  by (induction sched arbitrary: sys) (simp_all add: step_length)

lemma step_enter:
  "t < length (tasks sys) \<Longrightarrow> pc (tasks sys ! t) = Outside \<Longrightarrow> todo (tasks sys ! t) = c # cs
   \<Longrightarrow> \<not> mtx (shared sys) \<Longrightarrow>
   step P t sys
     = sys\<lparr>shared := (shared sys)\<lparr>mtx := True\<rparr>,
           tasks := (tasks sys)[t := (tasks sys ! t)\<lparr>pc := Inside\<rparr>]\<rparr>"
  by (simp add: step_def lock_def)

lemma step_run:
  "t < length (tasks sys) \<Longrightarrow> pc (tasks sys ! t) = Inside \<Longrightarrow> todo (tasks sys ! t) = c # cs
   \<Longrightarrow> body P c (shared sys) (env sys) = (r, s', w') \<Longrightarrow>
   step P t sys
     = sys\<lparr>shared := s', env := w',
           tasks := (tasks sys)
             [t := \<lparr>todo = cs, pc = Leaving, replies = replies (tasks sys ! t) @ [(c, r)]\<rparr>]\<rparr>"
  by (simp add: step_def)

lemma step_leave:
  "t < length (tasks sys) \<Longrightarrow> pc (tasks sys ! t) = Leaving \<Longrightarrow>
   step P t sys
     = sys\<lparr>shared := unlock (shared sys),
           tasks := (tasks sys)[t := (tasks sys ! t)\<lparr>pc := Outside\<rparr>]\<rparr>"
  by (simp add: step_def)

lemma step_others: "u \<noteq> t \<Longrightarrow> tasks (step P t sys) ! u = tasks sys ! u"
  by (cases P t sys rule: step_cases) simp_all

lemma exec_append: "exec P (xs @ ys) sys = exec P ys (exec P xs sys)"
  by (induction xs arbitrary: sys) simp_all

section \<open>The mutex is held by at most one task\<close>

lemma holders_update:
  "t < length (tasks sys) \<Longrightarrow>
   holders (sys\<lparr>tasks := (tasks sys)[t := T']\<rparr>) + (if pc (tasks sys ! t) = Outside then 0 else 1)
     = holders sys + (if pc T' = Outside then 0 else 1)"
  unfolding holders_def
  using sum_list_map_update [of t "tasks sys" "\<lambda>T. if pc T = Outside then 0 else 1 :: nat" T']
  by simp

lemma mutex_inv_step: "mutex_inv sys \<Longrightarrow> mutex_inv (step P t sys)"
proof (cases P t sys rule: step_cases)
  case stutter
  assume "mutex_inv sys"
  then show ?thesis
    using stutter by simp
next
  case (enter T c cs)
  assume "mutex_inv sys"
  then have "holders sys = 0"
    using enter by (simp add: mutex_inv_def)
  then have "holders (sys\<lparr>tasks := (tasks sys)[t := T\<lparr>pc := Inside\<rparr>]\<rparr>) = 1"
    using holders_update [of t sys "T\<lparr>pc := Inside\<rparr>"] enter by simp
  then show ?thesis
    using enter by (simp add: mutex_inv_def holders_def)
next
  case (run T c cs r s' w')
  assume inv: "mutex_inv sys"
  have "holders (sys\<lparr>tasks := (tasks sys)
      [t := \<lparr>todo = cs, pc = Leaving, replies = replies T @ [(c, r)]\<rparr>]\<rparr>) = holders sys"
    using holders_update [of t sys "\<lparr>todo = cs, pc = Leaving, replies = replies T @ [(c, r)]\<rparr>"] run
    by simp
  moreover have "mtx s' = mtx (shared sys)"
    using run by (auto dest: body_mtx)
  ultimately show ?thesis
    using run inv by (simp add: mutex_inv_def holders_def)
next
  case (leave T)
  assume inv: "mutex_inv sys"
  have "holders (sys\<lparr>tasks := (tasks sys)[t := T\<lparr>pc := Outside\<rparr>]\<rparr>) + 1 = holders sys"
    using holders_update [of t sys "T\<lparr>pc := Outside\<rparr>"] leave by simp
  moreover have "holders sys \<le> 1"
    using inv by (simp add: mutex_inv_def)
  ultimately have "holders (sys\<lparr>tasks := (tasks sys)[t := T\<lparr>pc := Outside\<rparr>]\<rparr>) = 0"
    by linarith
  then show ?thesis
    using leave by (simp add: mutex_inv_def holders_def unlock_def)
qed

lemma mutex_inv_exec: "mutex_inv sys \<Longrightarrow> mutex_inv (exec P sched sys)"
  by (induction sched arbitrary: sys) (simp_all add: mutex_inv_step)

lemma mutex_inv_start: "mutex_inv (start progs w)"
  by (induction progs) (simp_all add: mutex_inv_def holders_def start_def construct_def)

lemma mutex_inv_held:
  assumes "mutex_inv sys" "t < length (tasks sys)" "pc (tasks sys ! t) \<noteq> Outside"
  shows "mtx (shared sys)"
proof (rule ccontr)
  assume "\<not> mtx (shared sys)"
  then have "holders sys = 0"
    using assms(1) by (simp add: mutex_inv_def)
  moreover have "(if pc (tasks sys ! t) = Outside then 0 else 1 :: nat)
      \<in> set (map (\<lambda>T. if pc T = Outside then 0 else 1) (tasks sys))"
    using assms(2) by (auto simp add: in_set_conv_nth intro!: exI [of _ t])
  then have "(if pc (tasks sys ! t) = Outside then 0 else 1 :: nat) \<le> holders sys"
    unfolding holders_def by (simp add: member_le_sum_list)
  ultimately show False
    using assms(3) by simp
qed

lemma mutex_inv_free:
  assumes "mutex_inv sys" "\<forall>t < length (tasks sys). pc (tasks sys ! t) = Outside"
  shows "\<not> mtx (shared sys)"
proof -
  have "map (\<lambda>T. if pc T = Outside then 0 else 1 :: nat) (tasks sys)
      = map (\<lambda>T. 0) (tasks sys)"
    using assms(2) by (auto simp add: in_set_conv_nth)
  then have "holders sys = 0"
    by (simp add: holders_def)
  then show ?thesis
    using assms(1) by (simp add: mutex_inv_def split: if_splits)
qed

lemma mutex_inv_exclusive:
  assumes "mutex_inv sys" "t < length (tasks sys)" "u < length (tasks sys)" "t \<noteq> u"
  shows "pc (tasks sys ! t) = Outside \<or> pc (tasks sys ! u) = Outside"
proof -
  let ?f = "\<lambda>T. if pc T = Outside then 0 else 1 :: nat"
  have "map ?f (tasks sys) ! t + map ?f (tasks sys) ! u \<le> sum_list (map ?f (tasks sys))"
    using assms by (intro nth_pair_le_sum_list) simp_all
  moreover have "sum_list (map ?f (tasks sys)) \<le> 1"
    using assms(1) by (simp add: mutex_inv_def holders_def)
  ultimately have "?f (tasks sys ! t) + ?f (tasks sys ! u) \<le> 1"
    using assms by simp
  then show ?thesis
    by (simp split: if_splits)
qed

lemma finished_free: "mutex_inv sys \<Longrightarrow> finished sys \<Longrightarrow> \<not> mtx (shared sys)"
  by (rule mutex_inv_free) (auto simp add: finished_def list_all_length)

lemma holders_pos:
  assumes "0 < holders sys"
  shows "\<exists>t < length (tasks sys). pc (tasks sys ! t) \<noteq> Outside"
proof -
  have "\<exists>n \<in> set (map (\<lambda>T. if pc T = Outside then 0 else 1 :: nat) (tasks sys)). n \<noteq> 0"
    using assms unfolding holders_def by (metis sum_list_eq_0_iff neq0_conv)
  then obtain T where "T \<in> set (tasks sys)" "pc T \<noteq> Outside"
    by (auto split: if_splits)
  then show ?thesis
    by (auto simp add: in_set_conv_nth)
qed

section \<open>The elements are the values appended\<close>

lemma all_appended_update:
  "t < length (tasks sys) \<Longrightarrow>
   all_appended (sys\<lparr>tasks := (tasks sys)[t := T']\<rparr>) + mset (appended (tasks sys ! t))
     = all_appended sys + mset (appended T')"
  unfolding all_appended_def
  using sum_list_map_update [of t "tasks sys" "\<lambda>T. mset (appended T)" T']
  by simp

lemma all_appended_same:
  "t < length (tasks sys) \<Longrightarrow> appended T' = appended (tasks sys ! t) \<Longrightarrow>
   all_appended (sys\<lparr>shared := s, tasks := (tasks sys)[t := T']\<rparr>) = all_appended sys"
  by (simp add: all_appended_def map_update_same)

lemma elems_inv_step: "elems_inv sys \<Longrightarrow> elems_inv (step P t sys)"
proof (cases P t sys rule: step_cases)
  case stutter
  assume "elems_inv sys"
  then show ?thesis
    using stutter by simp
next
  case (enter T c cs)
  assume "elems_inv sys"
  then show ?thesis
    using enter all_appended_same [of t sys "T\<lparr>pc := Inside\<rparr>" "(shared sys)\<lparr>mtx := True\<rparr>"]
    by (simp add: elems_inv_def appended_def)
next
  case (run T c cs r s' w')
  assume inv: "elems_inv sys"
  let ?T' = "\<lparr>todo = cs, pc = Leaving, replies = replies T @ [(c, r)]\<rparr>"
  have a: "appended ?T' = appended T @ appended1 (c, r)"
    by (simp add: appended_def)
  have "all_appended (sys\<lparr>tasks := (tasks sys)[t := ?T']\<rparr>) + mset (appended T)
      = all_appended sys + mset (appended ?T')"
    using all_appended_update [of t sys ?T'] run by simp
  then have "all_appended (sys\<lparr>tasks := (tasks sys)[t := ?T']\<rparr>)
      = all_appended sys + mset (appended1 (c, r))"
    by (simp add: a)
  moreover have "elems (data s') = elems (data (shared sys)) @ appended1 (c, r)"
    using run by (auto dest: body_elems)
  ultimately show ?thesis
    using run inv by (simp add: elems_inv_def all_appended_def)
next
  case (leave T)
  assume "elems_inv sys"
  then show ?thesis
    using leave all_appended_same [of t sys "T\<lparr>pc := Outside\<rparr>" "unlock (shared sys)"]
    by (simp add: elems_inv_def appended_def unlock_def)
qed

lemma elems_inv_exec: "elems_inv sys \<Longrightarrow> elems_inv (exec P sched sys)"
  by (induction sched arbitrary: sys) (simp_all add: elems_inv_step)

lemma elems_inv_start: "elems_inv (start progs w)"
  by (induction progs)
    (simp_all add: elems_inv_def all_appended_def start_def construct_def empty_vector_def
      appended_def)

lemma size_all_appended: "size (all_appended sys) = appended_count sys"
proof -
  have "size (sum_list (map (\<lambda>T. mset (appended T)) ts))
      = sum_list (map (\<lambda>T. length (appended T)) ts)" for ts :: "'a task list"
    by (induction ts) simp_all
  then show ?thesis
    by (simp add: all_appended_def appended_count_def)
qed

section \<open>Every call of a task's program is made once, in order\<close>

lemma script_step: "map script (tasks (step P t sys)) = map script (tasks sys)"
  by (cases P t sys rule: step_cases) (simp_all add: map_update_same script_def)

lemma script_exec: "map script (tasks (exec P sched sys)) = map script (tasks sys)"
  by (induction sched arbitrary: sys) (simp_all add: script_step)

lemma script_start: "map script (tasks (start progs w)) = progs"
  by (induction progs) (simp_all add: start_def script_def)

lemma script_finished:
  "finished sys \<Longrightarrow> map (\<lambda>T. map fst (replies T)) (tasks sys) = map script (tasks sys)"
  by (auto simp add: finished_def list_all_iff script_def)

section \<open>Reading the whole sequence\<close>

lemma get_each_free:
  "\<not> mtx s \<Longrightarrow> get_each js s = Some (map (\<lambda>i. get_body i s) js, s)"
  by (induction js) (simp_all add: get_free)

lemma read_all_free:
  assumes "\<not> mtx s"
  shows "read_all s = Some (map Inr (elems (data s)), s)"
proof -
  have "map (\<lambda>i. get_body i s) [0..<length (elems (data s))]
      = map (\<lambda>i. Inr (elems (data s) ! i)) [0..<length (elems (data s))]"
    by (simp add: get_body_def)
  also have "\<dots> = map Inr (map ((!) (elems (data s))) [0..<length (elems (data s))])"
    by simp
  also have "\<dots> = map Inr (elems (data s))"
    by (simp only: map_nth)
  finally show ?thesis
    using assms by (simp add: read_all_def size_free get_each_free size_body_def)
qed

section \<open>A call is its three steps\<close>

lemma call_Add:
  "call P (Add x) s w =
     map_option (\<lambda>(r, s', w'). (case r of Inl e \<Rightarrow> Inl e | Inr u \<Rightarrow> Inr Done, s', w'))
       (add P x s w)"
  by (simp add: call_def add_def split: option.splits prod.splits sum.splits)

lemma call_Get:
  "call P (Get i) s w =
     map_option (\<lambda>(r, s'). (case r of Inl e \<Rightarrow> Inl e | Inr x \<Rightarrow> Inr (Element x), s', w))
       (get i s)"
  by (simp add: call_def get_def lock_def unlock_def get_body_def split: option.splits prod.splits sum.splits)

lemma call_Size:
  "call P Size s w = map_option (\<lambda>(n, s'). (Inr (Length n), s', w)) (size_tsv s)"
  by (simp add: call_def size_tsv_def lock_def unlock_def size_body_def split: option.splits)

lemma exec_call:
  assumes "t < length (tasks sys)" "tasks sys ! t = T" "pc T = Outside" "todo T = c # cs"
    "\<not> mtx (shared sys)"
  shows "\<exists>r s' w'. call P c (shared sys) (env sys) = Some (r, s', w')
    \<and> exec P [t, t, t] sys
        = sys\<lparr>shared := s', env := w',
              tasks := (tasks sys)
                [t := \<lparr>todo = cs, pc = Outside, replies = replies T @ [(c, r)]\<rparr>]\<rparr>"
proof -
  obtain r s2 w' where b: "body P c ((shared sys)\<lparr>mtx := True\<rparr>) (env sys) = (r, s2, w')"
    by (cases "body P c ((shared sys)\<lparr>mtx := True\<rparr>) (env sys)") auto
  have c: "call P c (shared sys) (env sys) = Some (r, unlock s2, w')"
    using assms(5) b by (simp add: call_def lock_def)
  let ?sys1 = "sys\<lparr>shared := (shared sys)\<lparr>mtx := True\<rparr>,
      tasks := (tasks sys)[t := T\<lparr>pc := Inside\<rparr>]\<rparr>"
  let ?sys2 = "sys\<lparr>shared := s2, env := w',
      tasks := (tasks sys)[t := \<lparr>todo = cs, pc = Leaving, replies = replies T @ [(c, r)]\<rparr>]\<rparr>"
  let ?sys3 = "sys\<lparr>shared := unlock s2, env := w',
      tasks := (tasks sys)[t := \<lparr>todo = cs, pc = Outside, replies = replies T @ [(c, r)]\<rparr>]\<rparr>"
  have s1: "step P t sys = ?sys1"
    using assms step_enter [of t sys c cs P] by simp
  have s2: "step P t ?sys1 = ?sys2"
    using assms b step_run [of t ?sys1 c cs P r s2 w'] by simp
  have s3: "step P t ?sys2 = ?sys3"
    using assms step_leave [of t ?sys2 P] by simp
  have "exec P [t, t, t] sys = ?sys3"
    by (simp add: s1 s2 s3)
  then show ?thesis
    using c by blast
qed

lemma call_unlocks: "call P c s w = Some (r, s', w') \<Longrightarrow> \<not> mtx s'"
  by (auto simp add: call_def lock_def unlock_def split: if_splits prod.splits)

section \<open>Every run can be completed\<close>

lemma run_to_end_finishes:
  assumes "t < length (tasks sys)" "pc (tasks sys ! t) = Outside" "todo (tasks sys ! t) = cs"
    "\<not> mtx (shared sys)"
  shows "todo (tasks (exec P (run_to_end t cs) sys) ! t) = []
    \<and> pc (tasks (exec P (run_to_end t cs) sys) ! t) = Outside
    \<and> \<not> mtx (shared (exec P (run_to_end t cs) sys))
    \<and> (\<forall>u. u \<noteq> t \<longrightarrow> tasks (exec P (run_to_end t cs) sys) ! u = tasks sys ! u)"
  using assms
proof (induction cs arbitrary: sys)
  case Nil
  then show ?case
    by (simp add: run_to_end_def)
next
  case (Cons c cs)
  obtain r s' w' where c: "call P c (shared sys) (env sys) = Some (r, s', w')"
    and e: "exec P [t, t, t] sys
        = sys\<lparr>shared := s', env := w',
              tasks := (tasks sys)
                [t := \<lparr>todo = cs, pc = Outside,
                       replies = replies (tasks sys ! t) @ [(c, r)]\<rparr>]\<rparr>"
    using exec_call [of t sys "tasks sys ! t" c cs P] Cons.prems by auto
  let ?sys1 = "exec P [t, t, t] sys"
  have split: "exec P (run_to_end t (c # cs)) sys = exec P (run_to_end t cs) ?sys1"
    by (simp add: run_to_end_def)
  have p: "t < length (tasks ?sys1)" "pc (tasks ?sys1 ! t) = Outside"
    "todo (tasks ?sys1 ! t) = cs" "\<not> mtx (shared ?sys1)"
    using Cons.prems(1) call_unlocks [OF c] unfolding e by simp_all
  have others: "\<forall>u. u \<noteq> t \<longrightarrow> tasks ?sys1 ! u = tasks sys ! u"
    unfolding e by simp
  show ?case
    using Cons.IH [OF p] others by (simp only: split) simp
qed

lemma serial_prefix:
  assumes "\<not> mtx (shared sys)" "\<forall>u < length (tasks sys). pc (tasks sys ! u) = Outside"
    and "k \<le> length (tasks sys)"
  shows "\<not> mtx (shared (exec P (concat (map (\<lambda>t. run_to_end t (todo (tasks sys ! t))) [0..<k])) sys))
    \<and> (\<forall>u < k. todo (tasks (exec P (concat (map (\<lambda>t. run_to_end t (todo (tasks sys ! t))) [0..<k])) sys) ! u) = []
          \<and> pc (tasks (exec P (concat (map (\<lambda>t. run_to_end t (todo (tasks sys ! t))) [0..<k])) sys) ! u) = Outside)
    \<and> (\<forall>u. k \<le> u \<longrightarrow> tasks (exec P (concat (map (\<lambda>t. run_to_end t (todo (tasks sys ! t))) [0..<k])) sys) ! u = tasks sys ! u)"
  using assms(3)
proof (induction k)
  case 0
  then show ?case
    using assms(1) by simp
next
  case (Suc k)
  let ?f = "\<lambda>t. run_to_end t (todo (tasks sys ! t))"
  let ?sysk = "exec P (concat (map ?f [0..<k])) sys"
  have ih: "\<not> mtx (shared ?sysk)"
    "\<forall>u < k. todo (tasks ?sysk ! u) = [] \<and> pc (tasks ?sysk ! u) = Outside"
    "\<forall>u. k \<le> u \<longrightarrow> tasks ?sysk ! u = tasks sys ! u"
    using Suc by simp_all
  have split: "exec P (concat (map ?f [0..<Suc k])) sys = exec P (?f k) ?sysk"
    by (simp add: exec_append)
  have k: "k < length (tasks ?sysk)"
    using Suc.prems by (simp add: exec_length)
  have same: "tasks ?sysk ! k = tasks sys ! k"
    using ih(3) by simp
  have p: "pc (tasks ?sysk ! k) = Outside" "todo (tasks ?sysk ! k) = todo (tasks sys ! k)"
    using assms(2) Suc.prems by (simp_all add: same)
  have r: "todo (tasks (exec P (?f k) ?sysk) ! k) = []
    \<and> pc (tasks (exec P (?f k) ?sysk) ! k) = Outside
    \<and> \<not> mtx (shared (exec P (?f k) ?sysk))
    \<and> (\<forall>u. u \<noteq> k \<longrightarrow> tasks (exec P (?f k) ?sysk) ! u = tasks ?sysk ! u)"
    using run_to_end_finishes [OF k p(1) p(2) ih(1)] .
  have below: "\<forall>u < Suc k. todo (tasks (exec P (?f k) ?sysk) ! u) = []
      \<and> pc (tasks (exec P (?f k) ?sysk) ! u) = Outside"
  proof (intro allI impI)
    fix u assume "u < Suc k"
    then consider "u = k" | "u < k"
      by linarith
    then show "todo (tasks (exec P (?f k) ?sysk) ! u) = []
      \<and> pc (tasks (exec P (?f k) ?sysk) ! u) = Outside"
    proof cases
      case 1
      then show ?thesis using r by simp
    next
      case 2
      then have "tasks (exec P (?f k) ?sysk) ! u = tasks ?sysk ! u"
        using r by simp
      then show ?thesis
        using ih(2) 2 by simp
    qed
  qed
  have above: "\<forall>u. Suc k \<le> u \<longrightarrow> tasks (exec P (?f k) ?sysk) ! u = tasks sys ! u"
    using r ih(3) by simp
  show ?case
    using r below above by (simp only: split) simp
qed


lemma inside_inv_step: "inside_inv sys \<Longrightarrow> inside_inv (step P t sys)"
  by (cases P t sys rule: step_cases) (auto simp add: inside_inv_def intro: list_all_update)

lemma inside_inv_exec: "inside_inv sys \<Longrightarrow> inside_inv (exec P sched sys)"
  by (induction sched arbitrary: sys) (simp_all add: inside_inv_step)

lemma inside_inv_start: "inside_inv (start progs w)"
  by (simp add: inside_inv_def start_def list_all_iff)

lemma quiet_finishes:
  assumes "\<not> mtx (shared sys)" "\<forall>u < length (tasks sys). pc (tasks sys ! u) = Outside"
  shows "\<exists>sched. finished (exec P sched sys)"
proof -
  let ?sched = "concat (map (\<lambda>t. run_to_end t (todo (tasks sys ! t))) [0..<length (tasks sys)])"
  have "\<forall>u < length (tasks sys).
      todo (tasks (exec P ?sched sys) ! u) = [] \<and> pc (tasks (exec P ?sched sys) ! u) = Outside"
    using serial_prefix [OF assms, of "length (tasks sys)" P] by simp
  then have "finished (exec P ?sched sys)"
    by (simp add: finished_def list_all_length exec_length)
  then show ?thesis ..
qed

lemma holder_leaves:
  assumes "mutex_inv sys" "inside_inv sys"
  shows "\<exists>pre. \<not> mtx (shared (exec P pre sys))
    \<and> (\<forall>u < length (tasks sys). pc (tasks (exec P pre sys) ! u) = Outside)"
proof (cases "mtx (shared sys)")
  case False
  then have "\<forall>u < length (tasks sys). pc (tasks sys ! u) = Outside"
    using mutex_inv_held [OF assms(1)] by blast
  then have "\<not> mtx (shared (exec P [] sys))
    \<and> (\<forall>u < length (tasks sys). pc (tasks (exec P [] sys) ! u) = Outside)"
    using False by simp
  then show ?thesis ..
next
  case True
  then have "0 < holders sys"
    using assms(1) by (simp add: mutex_inv_def)
  then obtain t where t: "t < length (tasks sys)" "pc (tasks sys ! t) \<noteq> Outside"
    using holders_pos by blast
  have alone: "\<forall>u < length (tasks sys). u \<noteq> t \<longrightarrow> pc (tasks sys ! u) = Outside"
    using mutex_inv_exclusive [OF assms(1)] t by blast
  have "\<exists>pre. pc (tasks (exec P pre sys) ! t) = Outside
      \<and> (\<forall>u. u \<noteq> t \<longrightarrow> tasks (exec P pre sys) ! u = tasks sys ! u)"
  proof (cases "pc (tasks sys ! t)")
    case Outside
    then show ?thesis
      using t by simp
  next
    case Leaving
    have "step P t sys
        = sys\<lparr>shared := unlock (shared sys),
              tasks := (tasks sys)[t := (tasks sys ! t)\<lparr>pc := Outside\<rparr>]\<rparr>"
      using t Leaving by (simp add: step_leave)
    then have "pc (tasks (exec P [t] sys) ! t) = Outside
      \<and> (\<forall>u. u \<noteq> t \<longrightarrow> tasks (exec P [t] sys) ! u = tasks sys ! u)"
      using t by simp
    then show ?thesis ..
  next
    case Inside
    then obtain c cs where todo: "todo (tasks sys ! t) = c # cs"
      using assms(2) t by (cases "todo (tasks sys ! t)") (auto simp add: inside_inv_def list_all_length)
    obtain r s' w' where b: "body P c (shared sys) (env sys) = (r, s', w')"
      by (cases "body P c (shared sys) (env sys)") auto
    let ?sys1 = "sys\<lparr>shared := s', env := w',
        tasks := (tasks sys)
          [t := \<lparr>todo = cs, pc = Leaving, replies = replies (tasks sys ! t) @ [(c, r)]\<rparr>]\<rparr>"
    have s1: "step P t sys = ?sys1"
      using t Inside todo b by (simp add: step_run)
    have s2: "step P t ?sys1
        = ?sys1\<lparr>shared := unlock (shared ?sys1),
              tasks := (tasks ?sys1)[t := (tasks ?sys1 ! t)\<lparr>pc := Outside\<rparr>]\<rparr>"
      using t by (intro step_leave) simp_all
    have "exec P [t, t] sys
        = ?sys1\<lparr>shared := unlock (shared ?sys1),
              tasks := (tasks ?sys1)[t := (tasks ?sys1 ! t)\<lparr>pc := Outside\<rparr>]\<rparr>"
      by (simp add: s1 s2)
    then have "pc (tasks (exec P [t, t] sys) ! t) = Outside
      \<and> (\<forall>u. u \<noteq> t \<longrightarrow> tasks (exec P [t, t] sys) ! u = tasks sys ! u)"
      using t by simp
    then show ?thesis ..
  qed
  then obtain pre where pre: "pc (tasks (exec P pre sys) ! t) = Outside"
    "\<forall>u. u \<noteq> t \<longrightarrow> tasks (exec P pre sys) ! u = tasks sys ! u"
    by blast
  have all: "\<forall>u < length (tasks sys). pc (tasks (exec P pre sys) ! u) = Outside"
  proof (intro allI impI)
    fix u assume "u < length (tasks sys)"
    then show "pc (tasks (exec P pre sys) ! u) = Outside"
      using pre alone by (cases "u = t") simp_all
  qed
  have "mutex_inv (exec P pre sys)"
    using assms(1) by (rule mutex_inv_exec)
  then have "\<not> mtx (shared (exec P pre sys))"
    using all by (intro mutex_inv_free) (simp_all add: exec_length)
  then show ?thesis
    using all by blast
qed

lemma can_finish:
  assumes "mutex_inv sys" "inside_inv sys"
  shows "\<exists>sched. finished (exec P sched sys)"
proof -
  obtain pre where pre: "\<not> mtx (shared (exec P pre sys))"
    "\<forall>u < length (tasks sys). pc (tasks (exec P pre sys) ! u) = Outside"
    using holder_leaves [OF assms] by blast
  have "\<forall>u < length (tasks (exec P pre sys)). pc (tasks (exec P pre sys) ! u) = Outside"
    using pre(2) by (simp add: exec_length)
  then obtain rest where "finished (exec P rest (exec P pre sys))"
    using quiet_finishes [OF pre(1)] by blast
  then have "finished (exec P (pre @ rest) sys)"
    by (simp add: exec_append)
  then show ?thesis ..
qed

lemma run_can_finish:
  "\<exists>more. finished (exec P (sched @ more) (start progs w))"
proof -
  have "\<exists>more. finished (exec P more (exec P sched (start progs w)))"
    by (intro can_finish mutex_inv_exec inside_inv_exec mutex_inv_start inside_inv_start)
  then show ?thesis
    by (simp add: exec_append)
qed

section \<open>The allocator's lines\<close>

lemma acquired_append: "acquired (xs @ ys) = acquired xs @ acquired ys"
  by (simp add: acquired_def)

lemma released_append: "released (xs @ ys) = released xs @ released ys"
  by (simp add: released_def)

lemma allocate_Inr:
  "allocate P n w = (Inr p, w1) \<Longrightarrow> cout w1 = cout w @ [AllocLine (unat n)]"
  by (auto simp add: allocate_def Let_def split: option.splits prod.splits)

lemma deallocate_cout: "cout (deallocate P p n w) = cout w @ [FreeLine (unat n)]"
  by (simp add: deallocate_def Let_def)

lemma release_storage_cout:
  "cout (release_storage P v w) = cout w @ map FreeLine (owed P v)"
  by (simp add: release_storage_def owed_def deallocate_cout split: option.splits)

lemma released_FreeLines: "released (map FreeLine ns) = ns"
  by (induction ns) (simp_all add: released_def)

lemma acquired_FreeLines: "acquired (map FreeLine ns) = []"
  by (induction ns) (simp_all add: acquired_def)

lemma push_back_log:
  fixes P :: "('h, 'w::len) platform"
  assumes "push_back P x v w = (r, v', w')"
  shows "\<exists>new. cout w' = cout w @ new
    \<and> length (acquired new) + length (owed P v)
        = length (released new) + length (owed P v') + (if r = Inl BadAlloc then 1 else 0)
    \<and> (r \<noteq> Inl BadAlloc \<longrightarrow>
          mset (acquired new) + mset (owed P v) = mset (released new) + mset (owed P v'))"
proof (cases "length (elems v) < capacity v \<or> vector_max_size P \<le> length (elems v)")
  case True
  then have "cout w' = cout w @ []" "owed P v' = owed P v" "r \<noteq> Inl BadAlloc"
    using assms by (auto simp add: push_back_def owed_def split: if_splits)
  then show ?thesis
    by (intro exI [of _ "[]"]) (simp add: acquired_def released_def)
next
  case False
  let ?n = "vector_growth P (length (elems v))"
  obtain a w1 where al: "allocate P (of_nat ?n) w = (a, w1)"
    by (cases "allocate P (of_nat ?n) w") auto
  show ?thesis
  proof (cases a)
    case (Inl e)
    then have "e = BadAlloc" "w1 = w\<lparr>cout := cout w @ [AllocLine (unat (of_nat ?n :: 'w word))]\<rparr>"
      using allocate_Inl [of P "of_nat ?n" w e w1] al by simp_all
    then have "cout w' = cout w @ [AllocLine (unat (of_nat ?n :: 'w word))]" "v' = v"
      "r = Inl BadAlloc"
      using assms False al Inl by (auto simp add: push_back_def Let_def)
    then show ?thesis
      by (intro exI [of _ "[AllocLine (unat (of_nat ?n :: 'w word))]"])
        (simp add: acquired_def released_def)
  next
    case (Inr p)
    then have c1: "cout w1 = cout w @ [AllocLine (unat (of_nat ?n :: 'w word))]"
      using allocate_Inr [of P "of_nat ?n" w p w1] al by simp
    have res: "r = Inr ()" "v' = \<lparr>storage = Some (p, ?n), elems = elems v @ [x]\<rparr>"
      "w' = release_storage P v w1"
      using assms False al Inr by (auto simp add: push_back_def Let_def)
    have "cout w' = cout w @ (AllocLine (unat (of_nat ?n :: 'w word)) # map FreeLine (owed P v))"
      using res c1 by (simp add: release_storage_cout)
    moreover have "owed P v' = [unat (of_nat ?n :: 'w word)]"
      using res by (simp add: owed_def)
    moreover have "acquired (AllocLine (unat (of_nat ?n :: 'w word)) # map FreeLine (owed P v))
        = [unat (of_nat ?n :: 'w word)]"
      using acquired_FreeLines [of "owed P v"] by (simp add: acquired_def)
    moreover have "released (AllocLine (unat (of_nat ?n :: 'w word)) # map FreeLine (owed P v))
        = owed P v"
      using released_FreeLines [of "owed P v"] by (simp add: released_def)
    ultimately show ?thesis
      using res
      by (intro exI [of _ "AllocLine (unat (of_nat ?n :: 'w word)) # map FreeLine (owed P v)"])
        simp
  qed
qed

lemma body_log:
  fixes P :: "('h, 'w::len) platform"
  assumes "body P c s w = (r, s', w')"
  shows "\<exists>new. cout w' = cout w @ new
    \<and> length (acquired new) + length (owed P (data s))
        = length (released new) + length (owed P (data s')) + count_list (raised1 (c, r)) BadAlloc
    \<and> (count_list (raised1 (c, r)) BadAlloc = 0 \<longrightarrow>
          mset (acquired new) + mset (owed P (data s))
            = mset (released new) + mset (owed P (data s')))"
proof (cases c)
  case (Add x)
  obtain r0 v' where pb: "push_back P x (data s) w = (r0, v', w')" and s': "s' = s\<lparr>data := v'\<rparr>"
    and r: "r = (case r0 of Inl e \<Rightarrow> Inl e | Inr u \<Rightarrow> Inr Done)"
    using assms Add by (auto simp add: add_body_def split: prod.splits sum.splits)
  have k: "count_list (raised1 (c, r)) BadAlloc = (if r0 = Inl BadAlloc then 1 else 0)"
    using r by (cases r0) (auto simp add: raised1_def)
  have d: "data s' = v'"
    using s' by simp
  obtain new where "cout w' = cout w @ new"
    "length (acquired new) + length (owed P (data s))
        = length (released new) + length (owed P v') + (if r0 = Inl BadAlloc then 1 else 0)"
    "r0 \<noteq> Inl BadAlloc \<longrightarrow>
          mset (acquired new) + mset (owed P (data s)) = mset (released new) + mset (owed P v')"
    using push_back_log [OF pb] by blast
  then show ?thesis
    by (intro exI [of _ new]) (simp add: k d)
next
  case (Get i)
  then have "cout w' = cout w @ []" "data s' = data s" "count_list (raised1 (c, r)) BadAlloc = 0"
    using assms by (auto simp add: raised1_def get_body_def split: sum.splits if_splits)
  then show ?thesis
    by (intro exI [of _ "[]"]) (simp add: acquired_def released_def)
next
  case Size
  then have "cout w' = cout w @ []" "data s' = data s" "count_list (raised1 (c, r)) BadAlloc = 0"
    using assms by (auto simp add: raised1_def)
  then show ?thesis
    by (intro exI [of _ "[]"]) (simp add: acquired_def released_def)
qed

lemma failures_update:
  "t < length (tasks sys) \<Longrightarrow>
   failures (sys\<lparr>tasks := (tasks sys)[t := T']\<rparr>) + count_list (raised (tasks sys ! t)) BadAlloc
     = failures sys + count_list (raised T') BadAlloc"
  unfolding failures_def
  using sum_list_map_update [of t "tasks sys" "\<lambda>T. count_list (raised T) BadAlloc" T']
  by simp

lemma failures_same:
  "t < length (tasks sys) \<Longrightarrow> raised T' = raised (tasks sys ! t) \<Longrightarrow>
   failures (sys\<lparr>shared := s, tasks := (tasks sys)[t := T']\<rparr>) = failures sys"
  by (simp add: failures_def map_update_same)

lemma log_inv_step:
  fixes P :: "('h, 'w::len) platform"
  assumes "log_inv P ls0 sys"
  shows "log_inv P ls0 (step P t sys)"
proof (cases P t sys rule: step_cases)
  case stutter
  then show ?thesis
    using assms by simp
next
  case (enter T c cs)
  have "failures (step P t sys) = failures sys"
    using enter failures_same [of t sys "T\<lparr>pc := Inside\<rparr>" "(shared sys)\<lparr>mtx := True\<rparr>"]
    by (simp add: raised_def)
  then show ?thesis
    using assms enter by (simp add: log_inv_def)
next
  case (run T c cs r s' w')
  let ?T' = "\<lparr>todo = cs, pc = Leaving, replies = replies T @ [(c, r)]\<rparr>"
  let ?k = "count_list (raised1 (c, r)) BadAlloc"
  have "raised ?T' = raised T @ raised1 (c, r)"
    by (simp add: raised_def)
  then have "failures (sys\<lparr>tasks := (tasks sys)[t := ?T']\<rparr>) + count_list (raised T) BadAlloc
      = failures sys + (count_list (raised T) BadAlloc + ?k)"
    using failures_update [of t sys ?T'] run by (simp add: count_list_append)
  then have f: "failures (step P t sys) = failures sys + ?k"
    using run by (simp add: failures_def)
  from body_log [OF run(5)] obtain new where everything:
    "cout w' = cout (env sys) @ new
     \<and> length (acquired new) + length (owed P (data (shared sys)))
        = length (released new) + length (owed P (data s')) + ?k
     \<and> (?k = 0 \<longrightarrow> mset (acquired new) + mset (owed P (data (shared sys)))
        = mset (released new) + mset (owed P (data s')))" ..
  have new: "cout w' = cout (env sys) @ new"
    using everything by (rule conjunct1)
  have len: "length (acquired new) + length (owed P (data (shared sys)))
        = length (released new) + length (owed P (data s')) + ?k"
    using everything by (rule conjunct2 [THEN conjunct1])
  have ms: "?k = 0 \<longrightarrow> mset (acquired new) + mset (owed P (data (shared sys)))
        = mset (released new) + mset (owed P (data s'))"
    using everything by (rule conjunct2 [THEN conjunct2])
  obtain ls where ls: "cout (env sys) = ls0 @ ls"
    and len0: "length (acquired ls)
        = length (released ls) + length (owed P (data (shared sys))) + failures sys"
    and ms0: "failures sys = 0 \<longrightarrow>
        mset (acquired ls) = mset (released ls) + mset (owed P (data (shared sys)))"
    using assms by (auto simp add: log_inv_def)
  have a: "cout (env (step P t sys)) = ls0 @ (ls @ new)"
    using run new ls by simp
  have b: "length (acquired (ls @ new))
      = length (released (ls @ new)) + length (owed P (data (shared (step P t sys))))
        + failures (step P t sys)"
    using len len0 f run by (simp add: acquired_append released_append)
  have c: "failures (step P t sys) = 0 \<longrightarrow>
      mset (acquired (ls @ new))
        = mset (released (ls @ new)) + mset (owed P (data (shared (step P t sys))))"
  proof
    assume "failures (step P t sys) = 0"
    then have "failures sys = 0" "?k = 0"
      using f by simp_all
    then have "mset (acquired ls) = mset (released ls) + mset (owed P (data (shared sys)))"
      "mset (acquired new) + mset (owed P (data (shared sys)))
        = mset (released new) + mset (owed P (data s'))"
      using ms ms0 by simp_all
    then have "mset (acquired ls) + mset (acquired new)
        = mset (released ls) + mset (released new) + mset (owed P (data s'))"
      by (simp only: add.assoc) (simp only: add.commute [of _ "mset (acquired new)"])
    then show "mset (acquired (ls @ new))
        = mset (released (ls @ new)) + mset (owed P (data (shared (step P t sys))))"
      using run by (simp add: acquired_append released_append)
  qed
  show ?thesis
    unfolding log_inv_def by (intro exI [of _ "ls @ new"] conjI a b c)
next
  case (leave T)
  have "failures (step P t sys) = failures sys"
    using leave failures_same [of t sys "T\<lparr>pc := Outside\<rparr>" "unlock (shared sys)"]
    by (simp add: raised_def)
  then show ?thesis
    using assms leave by (simp add: log_inv_def unlock_def)
qed

lemma log_inv_exec:
  fixes P :: "('h, 'w::len) platform"
  shows "log_inv P ls0 sys \<Longrightarrow> log_inv P ls0 (exec P sched sys)"
  by (induction sched arbitrary: sys) (simp_all add: log_inv_step)

lemma failures_start: "failures (start progs w) = 0"
  by (induction progs) (simp_all add: failures_def start_def raised_def)

lemma log_inv_start:
  fixes P :: "('h, 'w::len) platform"
  shows "log_inv P (cout w) (start progs w)"
  unfolding log_inv_def
  by (intro exI [of _ "[]"])
    (simp add: failures_start acquired_def released_def,
      simp add: start_def construct_def empty_vector_def owed_def)

section \<open>The driver\<close>
















section \<open>The concrete runs\<close>

lemmas run_defs = step_def lock_def unlock_def add_body_def push_back_def capacity_def
  allocate_def deallocate_def release_storage_def gnu_lp64_def pool_new_def pool_delete_def
  start_def construct_def empty_vector_def boot_def worker_def

lemma s2_run_eval:
  "s2_run =
     \<lparr>shared =
        \<lparr>data = \<lparr>storage = Some (5, 16),
                  elems = [100, 200, 300, 400, 500, 101, 201, 301, 401, 501, 102, 202, 302,
                           402, 502]\<rparr>,
         mtx = False\<rparr>,
      env =
        \<lparr>cout = [AllocLine 1, AllocLine 2, FreeLine 1, AllocLine 4, FreeLine 2, AllocLine 8,
                 FreeLine 4, AllocLine 16, FreeLine 8],
         cerr = [], heap = \<lparr>free_bytes = 936, brk = 6, blocks = [(5, 64)]\<rparr>\<rparr>,
      tasks =
        [\<lparr>todo = [], pc = Outside,
          replies = [(Add 100, Inr Done), (Add 101, Inr Done), (Add 102, Inr Done)]\<rparr>,
         \<lparr>todo = [], pc = Outside,
          replies = [(Add 200, Inr Done), (Add 201, Inr Done), (Add 202, Inr Done)]\<rparr>,
         \<lparr>todo = [], pc = Outside,
          replies = [(Add 300, Inr Done), (Add 301, Inr Done), (Add 302, Inr Done)]\<rparr>,
         \<lparr>todo = [], pc = Outside,
          replies = [(Add 400, Inr Done), (Add 401, Inr Done), (Add 402, Inr Done)]\<rparr>,
         \<lparr>todo = [], pc = Outside,
          replies = [(Add 500, Inr Done), (Add 501, Inr Done), (Add 502, Inr Done)]\<rparr>]\<rparr>"
  by (simp add: s2_run_def s2_schedule_def run_defs numeral_3_eq_3)

lemma s2_run_finished: "finished s2_run"
  by (simp add: s2_run_eval finished_def)

lemma failed_run_eval:
  "failed_run =
     \<lparr>shared = \<lparr>data = \<lparr>storage = None, elems = []\<rparr>, mtx = False\<rparr>,
      env = \<lparr>cout = [AllocLine 1], cerr = [],
             heap = \<lparr>free_bytes = 3, brk = 1, blocks = []\<rparr>\<rparr>,
      tasks = [\<lparr>todo = [], pc = Outside, replies = [(Add 7, Inl BadAlloc)]\<rparr>]\<rparr>"
  by (simp add: failed_run_def run_defs)

lemma held_run_eval:
  "held_run =
     \<lparr>shared = \<lparr>data = \<lparr>storage = Some (1, 1), elems = [1]\<rparr>, mtx = True\<rparr>,
      env = \<lparr>cout = [AllocLine 1], cerr = [],
             heap = \<lparr>free_bytes = 96, brk = 2, blocks = [(1, 4)]\<rparr>\<rparr>,
      tasks = [\<lparr>todo = [], pc = Leaving, replies = [(Add 1, Inr Done)]\<rparr>,
               \<lparr>todo = [Get 5], pc = Outside, replies = []\<rparr>]\<rparr>"
  by (simp add: held_run_def run_defs)




section \<open>The claims\<close>

subsection \<open>Reading by index\<close>

text \<open>
  Claim C1. Called on a sequence whose mutex is free (a call on a held mutex waits), \<open>get\<close>
  fails exactly when the index is at or beyond the current length; the failure is a
  \<open>DataException\<close> carrying the message of the source, which is not empty. For an index
  below the length it returns the element at that position, by value: the sequence comes
  back as it was. The current length is what \<open>size_tsv\<close> returns.
\<close>

theorem get_bounds:
  assumes "\<not> mtx s"
  shows "((\<exists>e s'. get index s = Some (Inl e, s')) \<longleftrightarrow> length (elems (data s)) \<le> index)
    \<and> (length (elems (data s)) \<le> index \<longrightarrow>
          get index s = Some (Inl (DataException index_message), s) \<and> index_message \<noteq> [])
    \<and> (index < length (elems (data s)) \<longrightarrow> get index s = Some (Inr (elems (data s) ! index), s))
    \<and> size_tsv s = Some (length (elems (data s)), s)"
  using assms
  by (auto simp add: get_free size_free get_body_def size_body_def index_message_nonempty)

theorem get_bounds_witness:
  "get 3 s1_vector = Some (Inl (DataException index_message), s1_vector)
   \<and> get 0 s1_vector = Some (Inr 10, s1_vector)
   \<and> get 2 s1_vector = Some (Inr 30, s1_vector)
   \<and> size_tsv s1_vector = Some (3, s1_vector)"
  using get_bounds [of s1_vector 3] get_bounds [of s1_vector 0] get_bounds [of s1_vector 2]
  by (simp add: s1_vector_def)

subsection \<open>Appending\<close>

text \<open>
  Claim C2. On return from a successful \<open>add\<close> the elements are the old ones followed by
  the new value: the length has grown by exactly one, the new value is at the last
  position, every earlier position reads as before, and the mutex is free again.
\<close>

theorem add_appends:
  assumes "add P x s w = Some (Inr (), s', w')"
  shows "elems (data s') = elems (data s) @ [x]
    \<and> \<not> mtx s'
    \<and> size_tsv s = Some (length (elems (data s)), s)
    \<and> size_tsv s' = Some (Suc (length (elems (data s))), s')
    \<and> get (length (elems (data s))) s' = Some (Inr x, s')
    \<and> (\<forall>i < length (elems (data s)). get i s' = Some (Inr (elems (data s) ! i), s'))"
proof -
  have free: "\<not> mtx s"
    using assms by (cases "mtx s") (simp_all add: add_blocked)
  obtain v where pb: "push_back P x (data s) w = (Inr (), v, w')" and s': "s' = s\<lparr>data := v\<rparr>"
    using assms free by (auto simp add: add_free split: prod.splits)
  have el: "elems (data s') = elems (data s) @ [x]"
    using push_back_Inr [OF pb] s' by simp
  have free': "\<not> mtx s'"
    using free s' by simp
  show ?thesis
    using el free free'
    by (simp add: size_free get_free size_body_def get_body_def nth_append)
qed

theorem add_appends_witness:
  "add gnu_lp64 40 s1_vector (boot 100)
     = Some (Inr (), s1_vector\<lparr>data := \<lparr>storage = Some (3, 4), elems = [10, 20, 30, 40]\<rparr>\<rparr>, boot 100)
   \<and> get 3 (s1_vector\<lparr>data := \<lparr>storage = Some (3, 4), elems = [10, 20, 30, 40]\<rparr>\<rparr>)
     = Some (Inr 40, s1_vector\<lparr>data := \<lparr>storage = Some (3, 4), elems = [10, 20, 30, 40]\<rparr>\<rparr>)"
proof -
  have run: "add gnu_lp64 40 s1_vector (boot 100)
     = Some (Inr (), s1_vector\<lparr>data := \<lparr>storage = Some (3, 4), elems = [10, 20, 30, 40]\<rparr>\<rparr>, boot 100)"
    by (simp add: add_def lock_def unlock_def add_body_def push_back_def capacity_def s1_vector_def)
  show ?thesis
    using add_appends [OF run] run by (simp add: s1_vector_def numeral_3_eq_3)
qed

subsection \<open>Runs of several tasks\<close>

text \<open>
  Claim C3. Tasks, any number of them, make their calls on one sequence constructed empty,
  in any interleaving of their steps. Once all of them have completed, \<open>size\<close> returns the
  number of \<open>add\<close> calls that returned successfully, over all tasks; each task has made
  exactly the calls of its program. A freshly constructed sequence has size 0. Every run,
  however far it has got, can be continued until all tasks have completed.
\<close>

theorem count_conservation:
  assumes "sys = exec P sched (start progs w)" and "finished sys"
  shows "size_tsv (shared sys) = Some (appended_count sys, shared sys)
    \<and> map (\<lambda>T. map fst (replies T)) (tasks sys) = progs
    \<and> size_tsv (construct :: 'a ThreadSafeVector) = Some (0, construct)
    \<and> (\<exists>more. finished (exec P (sched' @ more) (start progs w)))"
proof -
  have free: "\<not> mtx (shared sys)"
    using assms by (simp add: finished_free mutex_inv_exec mutex_inv_start)
  have "elems_inv sys"
    using assms(1) by (simp add: elems_inv_exec elems_inv_start)
  then have "size (mset (elems (data (shared sys)))) = appended_count sys"
    by (simp add: elems_inv_def size_all_appended)
  then have a: "size_tsv (shared sys) = Some (appended_count sys, shared sys)"
    using free by (simp add: size_free size_body_def)
  have b: "map (\<lambda>T. map fst (replies T)) (tasks sys) = progs"
    using assms by (simp add: script_finished script_exec script_start)
  have c: "size_tsv (construct :: 'a ThreadSafeVector) = Some (0, construct)"
    by (simp add: size_free size_body_def construct_def empty_vector_def)
  have d: "\<exists>more. finished (exec P (sched' @ more) (start progs w))"
    by (rule run_can_finish)
  show ?thesis
    using a b c d by (intro conjI)
qed

theorem count_conservation_witness:
  "finished s2_run
   \<and> size_tsv (shared s2_run) = Some (15, shared s2_run)
   \<and> map (\<lambda>T. map fst (replies T)) (tasks s2_run) = map worker [1, 2, 3, 4, 5]"
proof -
  have n: "appended_count s2_run = 15"
    by (simp add: s2_run_eval appended_count_def appended_def appended1_def)
  show ?thesis
    using count_conservation [OF s2_run_def s2_run_finished, unfolded n] s2_run_finished
    by blast
qed

text \<open>
  Claim C4. After such a run, reading \<open>get\<close> over the indices below \<open>size\<close> returns a value
  at every index, and the multiset of these values is the multiset of the values supplied
  to the \<open>add\<close> calls that succeeded.
\<close>

theorem value_preservation:
  assumes "sys = exec P sched (start progs w)" and "finished sys"
  shows "\<exists>xs. read_all (shared sys) = Some (map Inr xs, shared sys)
    \<and> mset xs = all_appended sys \<and> length xs = appended_count sys"
proof -
  have free: "\<not> mtx (shared sys)"
    using assms by (simp add: finished_free mutex_inv_exec mutex_inv_start)
  have inv: "mset (elems (data (shared sys))) = all_appended sys"
    using assms(1) elems_inv_exec [OF elems_inv_start] by (simp add: elems_inv_def)
  have "length (elems (data (shared sys))) = size (mset (elems (data (shared sys))))"
    by simp
  also have "\<dots> = appended_count sys"
    by (simp only: inv size_all_appended)
  finally have len: "length (elems (data (shared sys))) = appended_count sys" .
  show ?thesis
    using inv len read_all_free [OF free] by blast
qed

theorem value_preservation_witness:
  "finished s2_run
   \<and> (\<exists>xs. read_all (shared s2_run) = Some (map Inr xs, shared s2_run)
         \<and> mset xs = mset [100, 101, 102, 200, 201, 202, 300, 301, 302, 400, 401, 402,
                           500, 501, 502])"
proof -
  have a: "all_appended s2_run
      = mset [100, 101, 102, 200, 201, 202, 300, 301, 302, 400, 401, 402, 500, 501, 502]"
    by (simp add: s2_run_eval all_appended_def appended_def appended1_def)
  show ?thesis
    using value_preservation [OF s2_run_def s2_run_finished, unfolded a] s2_run_finished
    by blast
qed

subsection \<open>Failures of the allocator\<close>

text \<open>
  Claim C5, as amended. When \<open>allocate\<close> fails, it fails with \<open>BadAlloc\<close> because
  \<open>operator_new\<close> could not satisfy the request, and by then the diagnostic line naming
  \<open>n\<close> has been written, exactly once; nothing else of the environment has changed. This
  holds for every failing call.
\<close>

theorem allocate_failure:
  assumes "fst (allocate P n w) = Inl e"
  shows "e = BadAlloc \<and> operator_new P (n * sizeof_T P) (heap w) = None
    \<and> snd (allocate P n w) = w\<lparr>cout := cout w @ [AllocLine (unat n)]\<rparr>"
  using assms allocate_Inl [of P n w e "snd (allocate P n w)"]
  by (cases "allocate P n w") simp

theorem allocate_failure_witness:
  "fst (allocate gnu_lp64 1 (boot 3)) = Inl BadAlloc
   \<and> snd (allocate gnu_lp64 1 (boot 3)) = (boot 3)\<lparr>cout := [AllocLine 1]\<rparr>"
proof -
  have run: "fst (allocate gnu_lp64 1 (boot 3)) = Inl BadAlloc"
    by (simp add: allocate_def gnu_lp64_def boot_def pool_new_def)
  show ?thesis
    using allocate_failure [OF run] run by (simp add: boot_def)
qed

text \<open>
  Claim C5 as stated asks that a failing \<open>allocate\<close> leaves no diagnostic line. With three
  bytes left, the request for one \<^verbatim>\<open>int\<close> fails and the line is in \<^verbatim>\<open>std::cout\<close>.
\<close>

theorem allocate_failure_silent_counterexample:
  "\<not> (fst (allocate gnu_lp64 1 (boot 3)) = Inl BadAlloc
        \<longrightarrow> cout (snd (allocate gnu_lp64 1 (boot 3))) = cout (boot 3))"
  by (simp add: allocate_def gnu_lp64_def boot_def pool_new_def)



subsection \<open>The allocator's lines over the life of a sequence\<close>

text \<open>
  Claim C7, as amended. When the sequence is destroyed after a run in which no \<open>add\<close>
  ended with \<open>BadAlloc\<close>, the lines written since its construction name the same counts
  in their acquire lines as in their release lines: as many of each, and the same sum. In
  any run the acquire lines exceed the release lines by the number of \<open>add\<close> calls that
  ended with \<open>BadAlloc\<close>. Each \<open>allocate\<close> and each \<open>deallocate\<close> writes exactly one line,
  naming its count.
\<close>

theorem balanced_logging:
  fixes P :: "('h, 'w::len) platform"
  assumes "sys = exec P sched (start progs w)"
  shows "(\<exists>ls. cout (destroy P (shared sys) (env sys)) = cout w @ ls
      \<and> length (acquired ls) = length (released ls) + failures sys
      \<and> (failures sys = 0 \<longrightarrow>
            mset (acquired ls) = mset (released ls)
            \<and> sum_list (acquired ls) = sum_list (released ls)))
    \<and> cout (snd (allocate P n w')) = cout w' @ [AllocLine (unat n)]
    \<and> cout (deallocate P p n w') = cout w' @ [FreeLine (unat n)]"
proof -
  let ?v = "data (shared sys)"
  obtain ls where ls: "cout (env sys) = cout w @ ls"
    and len: "length (acquired ls) = length (released ls) + length (owed P ?v) + failures sys"
    and ms: "failures sys = 0 \<longrightarrow> mset (acquired ls) = mset (released ls) + mset (owed P ?v)"
    using log_inv_exec [OF log_inv_start, where P = P and sched = sched and w1 = w and progs1 = progs] assms
    by (auto simp add: log_inv_def)
  let ?ls = "ls @ map FreeLine (owed P ?v)"
  have a: "cout (destroy P (shared sys) (env sys)) = cout w @ ?ls"
    using ls by (simp add: destroy_def release_storage_cout)
  have acq: "acquired ?ls = acquired ls"
    by (simp add: acquired_append acquired_FreeLines)
  have rel: "released ?ls = released ls @ owed P ?v"
    by (simp add: released_append released_FreeLines)
  have b: "length (acquired ?ls) = length (released ?ls) + failures sys"
    using len by (simp only: acq rel) simp
  have c: "failures sys = 0 \<longrightarrow>
      mset (acquired ?ls) = mset (released ?ls) \<and> sum_list (acquired ?ls) = sum_list (released ?ls)"
  proof
    assume "failures sys = 0"
    then have "mset (acquired ?ls) = mset (released ?ls)"
      using ms by (simp only: acq rel) simp
    then show "mset (acquired ?ls) = mset (released ?ls)
        \<and> sum_list (acquired ?ls) = sum_list (released ?ls)"
      by (metis sum_mset_sum_list)
  qed
  have "\<exists>ls. cout (destroy P (shared sys) (env sys)) = cout w @ ls
      \<and> length (acquired ls) = length (released ls) + failures sys
      \<and> (failures sys = 0 \<longrightarrow>
            mset (acquired ls) = mset (released ls)
            \<and> sum_list (acquired ls) = sum_list (released ls))"
    by (intro exI [of _ ?ls] conjI a b c)
  then show ?thesis
    by (simp only: allocate_cout deallocate_cout simp_thms)
qed

theorem balanced_logging_witness:
  "failures s2_run = 0
   \<and> (\<exists>ls. cout (destroy gnu_lp64 (shared s2_run) (env s2_run)) = cout (boot 1000) @ ls
         \<and> mset (acquired ls) = mset (released ls)
         \<and> sum_list (acquired ls) = sum_list (released ls))
   \<and> acquired (cout (destroy gnu_lp64 (shared s2_run) (env s2_run))) = [1, 2, 4, 8, 16]
   \<and> released (cout (destroy gnu_lp64 (shared s2_run) (env s2_run))) = [1, 2, 4, 8, 16]"
proof -
  have f: "failures s2_run = 0"
    by (simp add: s2_run_eval failures_def raised_def raised1_def)
  have c: "cout (destroy gnu_lp64 (shared s2_run) (env s2_run))
      = [AllocLine 1, AllocLine 2, FreeLine 1, AllocLine 4, FreeLine 2, AllocLine 8,
         FreeLine 4, AllocLine 16, FreeLine 8, FreeLine 16]"
    by (simp add: s2_run_eval destroy_def release_storage_def deallocate_def gnu_lp64_def)
  have l: "acquired (cout (destroy gnu_lp64 (shared s2_run) (env s2_run))) = [1, 2, 4, 8, 16]"
    "released (cout (destroy gnu_lp64 (shared s2_run) (env s2_run))) = [1, 2, 4, 8, 16]"
    by (simp_all add: c acquired_def released_def)
  show ?thesis
    using balanced_logging [OF s2_run_def, THEN conjunct1] f l
    by blast
qed

text \<open>
  Claim C7 as stated does not hold after a failed allocation. One task appends once on a
  heap of three bytes: \<open>allocate\<close> writes its line and fails, nothing is ever released, and
  at the end of the sequence's life the output has one acquire line and no release line.
\<close>

theorem balanced_logging_counterexample:
  "\<not> (length (acquired (cout (destroy gnu_lp64 (shared failed_run) (env failed_run))))
        = length (released (cout (destroy gnu_lp64 (shared failed_run) (env failed_run)))))"
  by (simp add: failed_run_eval destroy_def release_storage_def acquired_def released_def)

subsection \<open>The driver\<close>




subsection \<open>The guard\<close>

text \<open>
  Claim C9. Each of \<open>add\<close>, \<open>get\<close> and \<open>size\<close> takes the mutex on entry: on a held mutex
  the call waits, on a free one it runs and returns with the mutex free again, whether it
  returns a value or throws. A \<open>get\<close> that fails with \<open>DataException\<close> therefore leaves
  the mutex to a following \<open>add\<close>, which runs. In every state a run of tasks reaches, the
  mutex is held exactly when some task is inside a guard's scope, and no two tasks are
  inside at once: the bodies, which alone touch the vector, never overlap. From every such
  state the tasks can go on until all have completed: no task waits for ever.
\<close>

theorem guarded_access:
  assumes "sys = exec P sched (start progs w)"
  shows "(mtx (shared sys) \<longleftrightarrow> (\<exists>t < length (tasks sys). pc (tasks sys ! t) \<noteq> Outside))
    \<and> (\<forall>t u. t < length (tasks sys) \<and> u < length (tasks sys) \<and> t \<noteq> u
          \<longrightarrow> pc (tasks sys ! t) = Outside \<or> pc (tasks sys ! u) = Outside)
    \<and> (mtx s \<longrightarrow> add P x s w' = None \<and> get i s = None \<and> size_tsv s = None)
    \<and> (\<not> mtx s \<longrightarrow>
          (\<exists>r s' w''. add P x s w' = Some (r, s', w'') \<and> \<not> mtx s')
          \<and> (\<exists>r s'. get i s = Some (r, s') \<and> \<not> mtx s')
          \<and> (\<exists>n s'. size_tsv s = Some (n, s') \<and> \<not> mtx s'))
    \<and> (get i s = Some (Inl e, s') \<longrightarrow> (\<exists>r s'' w''. add P x s' w' = Some (r, s'', w'')))
    \<and> (\<exists>more. finished (exec P more sys))"
proof -
  have inv: "mutex_inv sys"
    using assms by (simp add: mutex_inv_exec mutex_inv_start)
  have a: "mtx (shared sys) \<longleftrightarrow> (\<exists>t < length (tasks sys). pc (tasks sys ! t) \<noteq> Outside)"
  proof
    assume "mtx (shared sys)"
    then have "0 < holders sys"
      using inv by (simp add: mutex_inv_def)
    then show "\<exists>t < length (tasks sys). pc (tasks sys ! t) \<noteq> Outside"
      by (rule holders_pos)
  next
    assume "\<exists>t < length (tasks sys). pc (tasks sys ! t) \<noteq> Outside"
    then show "mtx (shared sys)"
      using mutex_inv_held [OF inv] by blast
  qed
  have b: "\<forall>t u. t < length (tasks sys) \<and> u < length (tasks sys) \<and> t \<noteq> u
          \<longrightarrow> pc (tasks sys ! t) = Outside \<or> pc (tasks sys ! u) = Outside"
    using mutex_inv_exclusive [OF inv] by blast
  have c: "mtx s \<longrightarrow> add P x s w' = None \<and> get i s = None \<and> size_tsv s = None"
    by (simp add: add_def get_def size_tsv_def lock_def)
  have d: "\<not> mtx s \<longrightarrow>
          (\<exists>r s' w''. add P x s w' = Some (r, s', w'') \<and> \<not> mtx s')
          \<and> (\<exists>r s'. get i s = Some (r, s') \<and> \<not> mtx s')
          \<and> (\<exists>n s'. size_tsv s = Some (n, s') \<and> \<not> mtx s')"
    by (auto simp add: add_free get_free size_free split: prod.splits)
  have e: "get i s = Some (Inl e, s') \<longrightarrow> (\<exists>r s'' w''. add P x s' w' = Some (r, s'', w''))"
  proof
    assume g: "get i s = Some (Inl e, s')"
    then have "\<not> mtx s"
      by (cases "mtx s") (simp_all add: get_def lock_def)
    then have "s' = s"
      using g by (simp add: get_free)
    then show "\<exists>r s'' w''. add P x s' w' = Some (r, s'', w'')"
      using \<open>\<not> mtx s\<close> by (auto simp add: add_free split: prod.splits)
  qed
  have f: "\<exists>more. finished (exec P more sys)"
    unfolding assms
    by (intro can_finish mutex_inv_exec inside_inv_exec mutex_inv_start inside_inv_start)
  show ?thesis
    using a b c d e f by (intro conjI)
qed

theorem guarded_access_witness:
  "mtx (shared held_run) \<and> pc (tasks held_run ! 0) = Leaving \<and> pc (tasks held_run ! 1) = Outside
   \<and> get 0 (shared held_run) = None
   \<and> get 3 s1_vector = Some (Inl (DataException index_message), s1_vector)
   \<and> (\<exists>r s'' w''. add gnu_lp64 40 s1_vector (boot 100) = Some (r, s'', w''))"
proof -
  have g: "get 3 s1_vector = Some (Inl (DataException index_message), s1_vector)"
    by (simp add: get_def lock_def unlock_def get_body_def s1_vector_def)
  have m: "mtx (shared held_run)" "pc (tasks held_run ! 0) = Leaving"
    "pc (tasks held_run ! 1) = Outside"
    by (simp_all add: held_run_eval)
  have f: "\<not> mtx s1_vector"
    by (simp add: s1_vector_def)
  show ?thesis
    using guarded_access [OF held_run_def, where s = "shared held_run" and i = 0]
      guarded_access [OF held_run_def, where s = s1_vector and i = 3 and x = 40
        and w' = "boot 100" and e = "DataException index_message" and s' = s1_vector] g m f
    by blast
qed

subsection \<open>The size of a request\<close>

text \<open>
  Claim C10. The byte count \<open>allocate\<close> passes to \<open>operator_new\<close> is \<open>n * sizeof(T)\<close>
  modulo \<open>2 ^ w\<close>, \<open>w\<close> the width of \<^verbatim>\<open>size_t\<close>, for every \<open>n\<close>; the diagnostic line
  reports \<open>n\<close> itself. Whenever the true product reaches \<open>2 ^ w\<close>, fewer bytes are requested
  than \<open>n\<close> elements need, and such \<open>n\<close> exist as soon as an element has two bytes or more.
\<close>

theorem allocate_request_wraps:
  fixes P :: "('h, 'w::len) platform"
  shows "unat (n * sizeof_T P) = (unat n * unat (sizeof_T P)) mod 2 ^ LENGTH('w)
    \<and> fst (allocate P n w) =
        (case operator_new P (word_of_nat ((unat n * unat (sizeof_T P)) mod 2 ^ LENGTH('w))) (heap w) of
           None \<Rightarrow> Inl BadAlloc | Some (p, h) \<Rightarrow> Inr p)
    \<and> cout (snd (allocate P n w)) = cout w @ [AllocLine (unat n)]
    \<and> (2 ^ LENGTH('w) \<le> unat n * unat (sizeof_T P)
         \<longrightarrow> unat (n * sizeof_T P) < unat n * unat (sizeof_T P))
    \<and> (2 \<le> unat (sizeof_T P)
         \<longrightarrow> (\<exists>m :: 'w word. 2 ^ LENGTH('w) \<le> unat m * unat (sizeof_T P)))"
proof -
  have a: "unat (n * sizeof_T P) = (unat n * unat (sizeof_T P)) mod 2 ^ LENGTH('w)"
    by (simp add: unat_word_ariths)
  have b: "word_of_nat ((unat n * unat (sizeof_T P)) mod 2 ^ LENGTH('w)) = n * sizeof_T P"
    unfolding a [symmetric] by simp
  have c: "fst (allocate P n w) =
        (case operator_new P (n * sizeof_T P) (heap w) of
           None \<Rightarrow> Inl BadAlloc | Some (p, h) \<Rightarrow> Inr p)"
    by (simp add: allocate_def Let_def split: option.splits prod.splits)
  have d: "2 ^ LENGTH('w) \<le> unat n * unat (sizeof_T P)
         \<longrightarrow> unat (n * sizeof_T P) < unat n * unat (sizeof_T P)"
  proof
    assume h: "2 ^ LENGTH('w) \<le> unat n * unat (sizeof_T P)"
    have "(unat n * unat (sizeof_T P)) mod 2 ^ LENGTH('w) < 2 ^ LENGTH('w)"
      by simp
    then show "unat (n * sizeof_T P) < unat n * unat (sizeof_T P)"
      using h a by linarith
  qed
  have e: "2 \<le> unat (sizeof_T P)
         \<longrightarrow> (\<exists>m :: 'w word. 2 ^ LENGTH('w) \<le> unat m * unat (sizeof_T P))"
  proof
    assume h: "2 \<le> unat (sizeof_T P)"
    have "(2::nat) ^ LENGTH('w) = 2 ^ (LENGTH('w) - 1) * 2"
      by (metis len_gt_0 power_minus_mult)
    also have "\<dots> \<le> 2 ^ (LENGTH('w) - 1) * unat (sizeof_T P)"
      using h by simp
    finally have "2 ^ LENGTH('w) \<le> unat (2 ^ (LENGTH('w) - 1) :: 'w word) * unat (sizeof_T P)"
      by (simp only: unat_half_range)
    then show "\<exists>m :: 'w word. 2 ^ LENGTH('w) \<le> unat m * unat (sizeof_T P)" ..
  qed
  show ?thesis
    using a c d e by (simp only: b allocate_cout)
qed

theorem allocate_request_wraps_witness:
  "unat ((2 ^ 62 + 1) * sizeof_T gnu_lp64) = 4
   \<and> allocate gnu_lp64 (2 ^ 62 + 1) (boot 100)
     = (Inr 1, \<lparr>cout = [AllocLine 4611686018427387905], cerr = [],
          heap = \<lparr>free_bytes = 96, brk = 2, blocks = [(1, 4)]\<rparr>\<rparr>)"
proof -
  have run: "allocate gnu_lp64 (2 ^ 62 + 1) (boot 100)
     = (Inr 1, \<lparr>cout = [AllocLine 4611686018427387905], cerr = [],
          heap = \<lparr>free_bytes = 96, brk = 2, blocks = [(1, 4)]\<rparr>\<rparr>)"
    by (simp add: allocate_def gnu_lp64_def boot_def pool_new_def)
  show ?thesis
    using allocate_request_wraps [of "2 ^ 62 + 1" gnu_lp64 "boot 100"] run
    by (simp add: gnu_lp64_def)
qed

end
